theory Spec2Isabelle
  imports Main "HOL-Library.Word"
begin

unbundle bit_operations_syntax

section \<open>Bytes, words and errors\<close>

text \<open>
  \<^verbatim>\<open>uint8_t\<close> and \<^verbatim>\<open>uint32_t\<close> are words whose arithmetic wraps around; a
  \<^verbatim>\<open>uint8_t\<close> buffer together with its extent is a list of bytes.
\<close>

type_synonym byte = "8 word"
type_synonym u32 = "32 word"

text \<open>
  Every \<^verbatim>\<open>throw std::runtime_error\<close> of \<^verbatim>\<open>SafeVar.hpp\<close> is one constructor
  (named after its message).  \<open>OutOfBounds\<close> is not thrown by the program: it marks
  an access outside the memory a pointer points into, where C++ leaves the behaviour
  undefined.
\<close>

datatype error =
    MemoryAllocationFailed
  | MemoryFreeFailed
  | InvalidMemoryState
  | MemoryValidationFailed
  | DecryptionVerificationFailed
  | OutOfBounds

section \<open>Utilities\<close>

text \<open>\<^verbatim>\<open>LoadLE32 (src + off)\<close>: four bytes, least significant first.\<close>

definition LoadLE32 :: "byte list \<Rightarrow> nat \<Rightarrow> u32" where
  "LoadLE32 src off =
     ucast (src ! off) OR
     push_bit 8 (ucast (src ! (off + 1))) OR
     push_bit 16 (ucast (src ! (off + 2))) OR
     push_bit 24 (ucast (src ! (off + 3)))"

text \<open>\<^verbatim>\<open>ComputeChecksumFNV\<close>: the loop over \<^verbatim>\<open>data[0..len)\<close> with the running hash.\<close>

fun fnv_loop :: "u32 \<Rightarrow> byte list \<Rightarrow> u32" where
  "fnv_loop hash [] = hash"
| "fnv_loop hash (b # bs) = fnv_loop ((hash XOR ucast b) * 0x01000193) bs"

definition ComputeChecksumFNV :: "byte list \<Rightarrow> u32" where
  "ComputeChecksumFNV data = fnv_loop 0x811C9DC5 data"

section \<open>The stream cipher (class ChaCha20)\<close>

definition constants :: "u32 list" where
  "constants = [0x61707865, 0x3320646e, 0x79622d36, 0x6b206574]"

definition RotateLeft :: "u32 \<Rightarrow> nat \<Rightarrow> u32" where
  "RotateLeft x n = push_bit n x OR drop_bit (32 - n) x"

definition QuarterRound :: "u32 list \<Rightarrow> nat \<Rightarrow> nat \<Rightarrow> nat \<Rightarrow> nat \<Rightarrow> u32 list" where
  "QuarterRound state a b c d =
    (let s = state[a := state ! a + state ! b];
         s = s[d := s ! d XOR s ! a];
         s = s[d := RotateLeft (s ! d) 16];
         s = s[c := s ! c + s ! d];
         s = s[b := s ! b XOR s ! c];
         s = s[b := RotateLeft (s ! b) 12];
         s = s[a := s ! a + s ! b];
         s = s[d := s ! d XOR s ! a];
         s = s[d := RotateLeft (s ! d) 8];
         s = s[c := s ! c + s ! d];
         s = s[b := s ! b XOR s ! c];
         s = s[b := RotateLeft (s ! b) 7]
     in s)"

text \<open>One pass of the loop body of \<^verbatim>\<open>Block\<close>: the "odd" then the "even" round.\<close>

definition double_round :: "u32 list \<Rightarrow> u32 list" where
  "double_round ws =
    (let ws = QuarterRound ws 0 4 8 12;
         ws = QuarterRound ws 1 5 9 13;
         ws = QuarterRound ws 2 6 10 14;
         ws = QuarterRound ws 3 7 11 15;
         ws = QuarterRound ws 0 5 10 15;
         ws = QuarterRound ws 1 6 11 12;
         ws = QuarterRound ws 2 7 8 13;
         ws = QuarterRound ws 3 4 9 14
     in ws)"

text \<open>\<^verbatim>\<open>for (int i = 0; i < 20; i += 2)\<close>, as recursion on the loop variable.\<close>

function rounds :: "nat \<Rightarrow> u32 list \<Rightarrow> u32 list" where
  "rounds i ws = (if i < 20 then rounds (i + 2) (double_round ws) else ws)"
  by pat_completeness auto
termination
  by (relation "measure (\<lambda>(i, ws). 20 - i)") auto

text \<open>
  \<^verbatim>\<open>std::memcpy (output, workingState.data (), 64)\<close> copies the object representation
  of sixteen \<^verbatim>\<open>uint32_t\<close>; on the little-endian targets of the Windows API that is
  each word least significant byte first.
\<close>

definition word_bytes :: "u32 \<Rightarrow> byte list" where
  "word_bytes x = [ucast x, ucast (drop_bit 8 x), ucast (drop_bit 16 x), ucast (drop_bit 24 x)]"

definition Block :: "u32 list \<Rightarrow> byte list" where
  "Block state =
    (let workingState = rounds 0 state;
         workingState = fold (\<lambda>i ws. ws[i := ws ! i + state ! i]) [0..<16] workingState
     in concat (map word_bytes workingState))"

text \<open>
  The \<^verbatim>\<open>while (bytesProcessed < length)\<close> loop of \<^verbatim>\<open>Encrypt\<close>.  The argument is the input
  from \<^verbatim>\<open>bytesProcessed\<close> on, the result the output from there on; \<^verbatim>\<open>counter\<close> is a
  \<^verbatim>\<open>uint32_t\<close> and wraps.
\<close>

function Encrypt_loop :: "u32 list \<Rightarrow> u32 \<Rightarrow> byte list \<Rightarrow> byte list" where
  "Encrypt_loop state counter input =
    (if input = [] then []
     else
       let state = state[12 := counter];
           keystream = Block state;
           blockSize = (if length input < 64 then length input else 64)
       in map2 (XOR) (take blockSize input) keystream
          @ Encrypt_loop state (counter + 1) (drop blockSize input))"
  by pat_completeness auto
termination
  by (relation "measure (\<lambda>(state, counter, input). length input)") (auto split: if_splits)

text \<open>
  \<^verbatim>\<open>Encrypt (input, output, length, key, nonce)\<close>.  \<open>input\<close> is the buffer of \<open>length\<close>
  bytes, and the result the \<open>length\<close> bytes written to \<open>output\<close> (every caller passes
  distinct buffers of exactly that size).  The routine reads \<open>key[0..32)\<close> and
  \<open>nonce[0..8)\<close> whatever the extent of the arrays behind the two pointers; \<open>key\<close> and
  \<open>nonce\<close> are the bytes found in memory from the two pointers on.
\<close>

definition initial_state :: "byte list \<Rightarrow> byte list \<Rightarrow> u32 list" where
  "initial_state key nonce =
     constants @ map (\<lambda>i. LoadLE32 key (i * 4)) [0..<8]
       @ [0, 0, LoadLE32 nonce 0, LoadLE32 nonce 4]"

definition Encrypt :: "byte list \<Rightarrow> byte list \<Rightarrow> byte list \<Rightarrow> error + byte list" where
  "Encrypt input key nonce =
    (if length key < 32 \<or> length nonce < 8 then Inl OutOfBounds
     else Inr (Encrypt_loop (initial_state key nonce) 0 input))"

section \<open>The allocators\<close>

text \<open>
  The part of the process outside the object: the pages handed out by
  \<^verbatim>\<open>VirtualAlloc\<close> (address to content; an address not in the domain is unmapped) and
  the static counter of \<^verbatim>\<open>FakeMemoryAllocator\<close> (a \<^verbatim>\<open>uintptr_t\<close>).
\<close>

record world =
  heap :: "nat \<Rightarrow> byte list option"
  fakeBaseAddress :: "64 word"

text \<open>
  What the environment answers during one call: the draws of \<^verbatim>\<open>dis (gen)\<close> in
  \<^verbatim>\<open>GenerateKey\<close> (each in 0..255), the draws of \<^verbatim>\<open>std::random_device\<close> in
  \<^verbatim>\<open>GenerateNonce\<close>, the pointer returned by \<^verbatim>\<open>VirtualAlloc\<close> (\<open>None\<close> is
  \<^verbatim>\<open>NULL\<close>) and the result of \<^verbatim>\<open>VirtualFree\<close>.
\<close>

record os_input =
  rand_key :: "nat \<Rightarrow> byte"
  rand_nonce :: "nat \<Rightarrow> u32"
  VirtualAlloc :: "nat option"
  VirtualFree :: bool

text \<open>
  The process before the first container exists: nothing allocated, and the static
  initialiser \<^verbatim>\<open>FakeMemoryAllocator::fakeBaseAddress = 0x10000000\<close>.
\<close>

definition initial_world :: world where
  "initial_world = \<lparr>heap = (\<lambda>a. None), fakeBaseAddress = 0x10000000\<rparr>"

definition AllocateRealMemory :: "os_input \<Rightarrow> world \<Rightarrow> nat \<Rightarrow> error + (nat \<times> world)" where
  "AllocateRealMemory os w sz =
    (case VirtualAlloc os of
       None \<Rightarrow> Inl MemoryAllocationFailed
     | Some ptr \<Rightarrow> Inr (ptr, w\<lparr>heap := (heap w)(ptr \<mapsto> replicate sz 0)\<rparr>))"

definition FreeRealMemory :: "os_input \<Rightarrow> world \<Rightarrow> nat \<Rightarrow> error + world" where
  "FreeRealMemory os w ptr =
    (if \<not> VirtualFree os then Inl MemoryFreeFailed
     else Inr (w\<lparr>heap := (heap w)(ptr := None)\<rparr>))"

definition AllocateFakeMemory :: "world \<Rightarrow> nat \<Rightarrow> 64 word \<times> world" where
  "AllocateFakeMemory w sz =
    (let allocatedAddress = fakeBaseAddress w
     in (allocatedAddress, w\<lparr>fakeBaseAddress := fakeBaseAddress w + (of_nat sz + 0x10)\<rparr>))"

section \<open>The container (class SafeVar)\<close>

text \<open>
  The fields of \<^verbatim>\<open>SafeVar<T>\<close>.  \<^verbatim>\<open>VALUE_SIZE = sizeof (T)\<close> is the first
  argument \<open>n\<close> of every operation; \<open>buffer\<close> and \<open>key\<close> are arrays of \<open>n\<close> bytes,
  \<open>nonce\<close> one of 12.  A value of the trivially copyable type \<open>T\<close> is its object
  representation, a list of \<open>n\<close> bytes.  \<open>realMemory = None\<close> is the null pointer.
\<close>

record SafeVar =
  buffer :: "byte list"
  key :: "byte list"
  realMemory :: "nat option"
  fakeMemoryAddress :: "64 word"
  nonce :: "byte list"
  lastChecksum :: u32
  isValid :: bool

text \<open>
  The object as the default member initialisers leave it, before the body of a
  constructor runs; the three arrays hold indeterminate bytes.
\<close>

definition uninitialized :: "byte list \<Rightarrow> byte list \<Rightarrow> byte list \<Rightarrow> SafeVar" where
  "uninitialized b k nc =
     \<lparr>buffer = b, key = k, realMemory = None, fakeMemoryAddress = 0, nonce = nc,
      lastChecksum = 0, isValid = False\<rparr>"

text \<open>\<^verbatim>\<open>std::memcpy (dest, src, count)\<close> on the first \<open>count\<close> bytes of \<open>dest\<close>.\<close>

definition memcpy :: "byte list \<Rightarrow> byte list \<Rightarrow> nat \<Rightarrow> byte list" where
  "memcpy dest src count = take count src @ drop count dest"

text \<open>
  \<^verbatim>\<open>InitializeCryptoState\<close> returns \<open>(fullKey, temp)\<close>.  \<^verbatim>\<open>struct CryptoState\<close> is the 32
  bytes of \<open>fullKey\<close> followed by the \<open>n\<close> bytes of \<open>temp\<close>.  \<^verbatim>\<open>std::copy\<close> writes all \<open>n\<close>
  bytes of \<open>key\<close> from \<open>fullKey.begin ()\<close> on: beyond 32 bytes the rest lands in \<open>temp\<close>,
  which is filled with zeros next.  (The bytes of \<open>temp\<close> before that are indeterminate
  and never read.)
\<close>

definition InitializeCryptoState :: "nat \<Rightarrow> SafeVar \<Rightarrow> byte list \<times> byte list" where
  "InitializeCryptoState n s =
    (let cryptoState = replicate 32 0 @ replicate n 0;
         cryptoState = memcpy cryptoState (key s) n;
         fullKey = take 32 cryptoState;
         temp = replicate n 0
     in (fullKey, temp))"

definition Obfuscate :: "nat \<Rightarrow> SafeVar \<Rightarrow> byte list \<Rightarrow> error + byte list" where
  "Obfuscate n s val =
    (case InitializeCryptoState n s of
       (fullKey, temp) \<Rightarrow>
         let temp = memcpy temp val n
         in Encrypt temp fullKey (nonce s))"

definition Deobfuscate :: "nat \<Rightarrow> SafeVar \<Rightarrow> byte list \<Rightarrow> error + byte list" where
  "Deobfuscate n s inBuffer =
    (case InitializeCryptoState n s of
       (fullKey, temp) \<Rightarrow>
         (case Encrypt inBuffer fullKey (nonce s) of
            Inl e \<Rightarrow> Inl e
          | Inr temp \<Rightarrow> Inr (memcpy (replicate n 0) temp n)))"

definition ValidateMemory :: "nat \<Rightarrow> SafeVar \<Rightarrow> world \<Rightarrow> error + bool" where
  "ValidateMemory n s w =
    (case realMemory s of
       None \<Rightarrow> Inr False
     | Some ptr \<Rightarrow>
         if \<not> isValid s then Inr False
         else (case heap w ptr of
                 None \<Rightarrow> Inl OutOfBounds
               | Some mem \<Rightarrow>
                   let memContent = memcpy (replicate n 0) mem n
                   in Inr (memContent = buffer s)))"

definition GenerateKey :: "nat \<Rightarrow> os_input \<Rightarrow> byte list" where
  "GenerateKey n os =
     fold (\<lambda>i keyOut. keyOut[i := rand_key os i]) [0..<min n 32] (replicate n 0)"

definition GenerateNonce :: "os_input \<Rightarrow> byte list" where
  "GenerateNonce os = map (\<lambda>i. ucast (rand_nonce os i)) [0..<12]"

definition Get :: "nat \<Rightarrow> SafeVar \<Rightarrow> world \<Rightarrow> bool \<Rightarrow> error + byte list" where
  "Get n s w encrypted =
    (case realMemory s of
       None \<Rightarrow> Inl InvalidMemoryState
     | Some ptr \<Rightarrow>
         (case ValidateMemory n s w of
            Inl e \<Rightarrow> Inl e
          | Inr ok \<Rightarrow>
              if \<not> ok then Inl MemoryValidationFailed
              else if encrypted then Inr (memcpy (replicate n 0) (buffer s) n)
              else (case Deobfuscate n s (buffer s) of
                      Inl e \<Rightarrow> Inl e
                    | Inr decrypted \<Rightarrow>
                        (case Obfuscate n s decrypted of
                           Inl e \<Rightarrow> Inl e
                         | Inr verify \<Rightarrow>
                             if verify \<noteq> buffer s then Inl DecryptionVerificationFailed
                             else Inr decrypted))))"

text \<open>
  The mutating operations return the outcome together with the object and the world as
  the call leaves them, also when it throws.  In \<^verbatim>\<open>Set\<close>, \<^verbatim>\<open>AllocateRealMemory\<close> has thrown
  already when \<^verbatim>\<open>VirtualAlloc\<close> returned \<^verbatim>\<open>NULL\<close>, so the test \<^verbatim>\<open>if (!realMemory)\<close> that
  follows the call never fires.
\<close>

definition Clear :: "nat \<Rightarrow> os_input \<Rightarrow> SafeVar \<Rightarrow> world \<Rightarrow> (error + unit) \<times> SafeVar \<times> world" where
  "Clear n os s w =
    (let wipe = (\<lambda>s. s\<lparr>buffer := replicate n 0, key := replicate n 0,
                         nonce := replicate 12 0, fakeMemoryAddress := 0\<rparr>)
     in case realMemory s of
          None \<Rightarrow> (Inr (), wipe s, w)
        | Some ptr \<Rightarrow>
            (case heap w ptr of
               None \<Rightarrow> (Inl OutOfBounds, s, w)
             | Some mem \<Rightarrow>
                 let w = w\<lparr>heap := (heap w)(ptr \<mapsto> replicate n 0 @ drop n mem)\<rparr>
                 in case FreeRealMemory os w ptr of
                      Inl e \<Rightarrow> (Inl e, s, w)
                    | Inr w \<Rightarrow> (Inr (), wipe (s\<lparr>realMemory := None\<rparr>), w)))"

definition Set :: "nat \<Rightarrow> os_input \<Rightarrow> SafeVar \<Rightarrow> world \<Rightarrow> byte list
    \<Rightarrow> (error + byte list) \<times> SafeVar \<times> world" where
  "Set n os s w val =
    (case Clear n os s w of
       (Inl e, s, w) \<Rightarrow> (Inl e, s, w)
     | (Inr _, s, w) \<Rightarrow>
         let s = s\<lparr>key := GenerateKey n os\<rparr>;
             s = s\<lparr>nonce := GenerateNonce os\<rparr>
         in case Obfuscate n s val of
              Inl e \<Rightarrow> (Inl e, s, w)
            | Inr outBuffer \<Rightarrow>
                let s = s\<lparr>buffer := outBuffer\<rparr>
                in case AllocateRealMemory os w n of
                     Inl e \<Rightarrow> (Inl e, s, w)
                   | Inr (ptr, w) \<Rightarrow>
                       let s = s\<lparr>realMemory := Some ptr\<rparr>;
                           w = w\<lparr>heap := (heap w)(ptr \<mapsto> memcpy (replicate n 0) (buffer s) n)\<rparr>;
                           s = s\<lparr>lastChecksum := ComputeChecksumFNV (buffer s)\<rparr>;
                           (fake, w) = AllocateFakeMemory w n;
                           s = s\<lparr>fakeMemoryAddress := fake\<rparr>;
                           s = s\<lparr>isValid := True\<rparr>
                       in (Inr val, s, w))"

definition ReKey :: "nat \<Rightarrow> os_input \<Rightarrow> SafeVar \<Rightarrow> world \<Rightarrow> (error + unit) \<times> SafeVar \<times> world" where
  "ReKey n os s w =
    (case Get n s w False of
       Inl e \<Rightarrow> (Inl e, s, w)
     | Inr current \<Rightarrow>
         (case Set n os s w current of
            (Inl e, s, w) \<Rightarrow> (Inl e, s, w)
          | (Inr _, s, w) \<Rightarrow> (Inr (), s, w)))"

text \<open>
  \<^verbatim>\<open>Serialize\<close> and \<^verbatim>\<open>Deserialize\<close> hand \<^verbatim>\<open>key.data ()\<close> to \<^verbatim>\<open>ChaCha20::Encrypt\<close>, which
  reads 32 bytes from there.  The pointer points at the \<open>key\<close> member inside the object,
  so below 32 bytes the read runs on into the members declared after \<open>key\<close>.  On the
  64-bit Windows target these are, in declaration order: the padding that aligns the
  pointer (\<open>pad\<close>: indeterminate bytes that no operation writes), \<open>realMemory\<close> and
  \<open>fakeMemoryAddress\<close> (8 bytes each, least significant first), \<open>nonce\<close>,
  \<open>lastChecksum\<close> and \<open>isValid\<close>.
\<close>

definition qword_bytes :: "64 word \<Rightarrow> byte list" where
  "qword_bytes x = map (\<lambda>i. ucast (drop_bit (8 * i) x)) [0..<8]"

definition pointer_bytes :: "nat option \<Rightarrow> byte list" where
  "pointer_bytes p = (case p of None \<Rightarrow> replicate 8 0 | Some a \<Rightarrow> qword_bytes (of_nat a))"

definition memory_from_key :: "byte list \<Rightarrow> SafeVar \<Rightarrow> byte list" where
  "memory_from_key pad s =
     key s @ pad @ pointer_bytes (realMemory s) @ qword_bytes (fakeMemoryAddress s)
       @ nonce s @ word_bytes (lastChecksum s) @ [if isValid s then 1 else 0]"

definition Serialize :: "nat \<Rightarrow> byte list \<Rightarrow> SafeVar \<Rightarrow> error + byte list" where
  "Serialize n pad s =
    (let out = replicate (n + 12 + n) 0;
         out = memcpy out (nonce s) 12;
         out = take 12 out @ memcpy (drop 12 out) (key s) n
     in case Encrypt (buffer s) (memory_from_key pad s) (nonce s) of
          Inl e \<Rightarrow> Inl e
        | Inr encrypted \<Rightarrow>
            Inr (take (12 + n) out @ memcpy (drop (12 + n) out) encrypted n))"

definition Deserialize :: "nat \<Rightarrow> byte list \<Rightarrow> SafeVar \<Rightarrow> byte list \<Rightarrow> (error + bool) \<times> SafeVar" where
  "Deserialize n pad s data =
    (if length data \<noteq> n + 12 + n then (Inr False, s)
     else
       let s = s\<lparr>nonce := memcpy (nonce s) data 12\<rparr>;
           s = s\<lparr>key := memcpy (key s) (drop 12 data) n\<rparr>;
           encrypted = memcpy (replicate n 0) (drop (12 + n) data) n
       in case Encrypt encrypted (memory_from_key pad s) (nonce s) of
            Inl e \<Rightarrow> (Inl e, s)
          | Inr out \<Rightarrow> (Inr True, s\<lparr>buffer := out\<rparr>))"

section \<open>The key accesses against the extents of the arrays\<close>

text \<open>
  The three routines that pass a key array on, with every access held against the extent
  of the array it goes through: \<open>key\<close> has \<open>n\<close> elements and \<open>fullKey\<close> has 32.  They
  return \<open>OutOfBounds\<close> where an access leaves its array, and otherwise what the routines
  above return.
\<close>

definition InitializeCryptoState_checked ::
    "nat \<Rightarrow> SafeVar \<Rightarrow> error + (byte list \<times> byte list)" where
  "InitializeCryptoState_checked n s =
    (let fullKey = replicate 32 0
     in if 32 < n then Inl OutOfBounds
        else let fullKey = memcpy fullKey (key s) n;
                 temp = replicate n 0
             in Inr (fullKey, temp))"

definition Serialize_checked :: "nat \<Rightarrow> SafeVar \<Rightarrow> error + byte list" where
  "Serialize_checked n s =
    (let out = replicate (n + 12 + n) 0;
         out = memcpy out (nonce s) 12;
         out = take 12 out @ memcpy (drop 12 out) (key s) n
     in case Encrypt (buffer s) (key s) (nonce s) of
          Inl e \<Rightarrow> Inl e
        | Inr encrypted \<Rightarrow>
            Inr (take (12 + n) out @ memcpy (drop (12 + n) out) encrypted n))"

definition Deserialize_checked :: "nat \<Rightarrow> SafeVar \<Rightarrow> byte list \<Rightarrow> (error + bool) \<times> SafeVar" where
  "Deserialize_checked n s data =
    (if length data \<noteq> n + 12 + n then (Inr False, s)
     else
       let s = s\<lparr>nonce := memcpy (nonce s) data 12\<rparr>;
           s = s\<lparr>key := memcpy (key s) (drop 12 data) n\<rparr>;
           encrypted = memcpy (replicate n 0) (drop (12 + n) data) n
       in case Encrypt encrypted (key s) (nonce s) of
            Inl e \<Rightarrow> (Inl e, s)
          | Inr out \<Rightarrow> (Inr True, s\<lparr>buffer := out\<rparr>))"

section \<open>States of the container\<close>

text \<open>
  The shape every operation keeps: the arrays have their declared sizes, and a non-null
  \<open>realMemory\<close> points to a mapped allocation of \<open>n\<close> bytes and comes with \<open>isValid\<close>.
  Nothing is said about the bytes in the allocation, which a foreign write may change.
\<close>

definition well_formed :: "nat \<Rightarrow> SafeVar \<Rightarrow> world \<Rightarrow> bool" where
  "well_formed n s w \<longleftrightarrow>
     length (buffer s) = n \<and> length (key s) = n \<and> length (nonce s) = 12 \<and>
     (case realMemory s of
        None \<Rightarrow> True
      | Some ptr \<Rightarrow> isValid s \<and> (case heap w ptr of None \<Rightarrow> False | Some mem \<Rightarrow> length mem = n))"

text \<open>The bytes of the real allocation, when there is one.\<close>

definition real_content :: "SafeVar \<Rightarrow> world \<Rightarrow> byte list option" where
  "real_content s w = (case realMemory s of None \<Rightarrow> None | Some ptr \<Rightarrow> heap w ptr)"

text \<open>
  The states a container goes through under its public operations alone, from the end
  of construction on.  \<^verbatim>\<open>Get\<close> and \<^verbatim>\<open>Serialize\<close> are \<^verbatim>\<open>const\<close> and change nothing.
\<close>

inductive reachable :: "nat \<Rightarrow> SafeVar \<times> world \<Rightarrow> bool" for n :: nat where
  construct:
    "length b = n \<Longrightarrow> length k = n \<Longrightarrow> length nc = 12 \<Longrightarrow> length v = n \<Longrightarrow>
     Set n os (uninitialized b k nc) w v = (Inr r, s', w') \<Longrightarrow> reachable n (s', w')"
| after_Set:
    "reachable n (s, w) \<Longrightarrow> length v = n \<Longrightarrow> Set n os s w v = (r, s', w') \<Longrightarrow>
     reachable n (s', w')"
| after_ReKey:
    "reachable n (s, w) \<Longrightarrow> ReKey n os s w = (r, s', w') \<Longrightarrow> reachable n (s', w')"
| after_Deserialize:
    "reachable n (s, w) \<Longrightarrow> Deserialize n pad s data = (r, s') \<Longrightarrow> reachable n (s', w)"
| after_Clear:
    "reachable n (s, w) \<Longrightarrow> Clear n os s w = (r, s', w') \<Longrightarrow> reachable n (s', w')"

text \<open>
  A write from outside the program (another process, a memory editor) over the start
  of a mapped allocation.  No operation of the container performs it.
\<close>

definition external_write :: "world \<Rightarrow> nat \<Rightarrow> byte list \<Rightarrow> world" where
  "external_write w ptr bytes =
    (case heap w ptr of
       None \<Rightarrow> w
     | Some mem \<Rightarrow>
         w\<lparr>heap := (heap w)(ptr \<mapsto> take (length mem) (bytes @ drop (length bytes) mem))\<rparr>)"

section \<open>The specification's words\<close>

text \<open>
  The \<open>Cleared\<close> state as the specification describes it: ciphertext, key and nonce
  buffers zeroed, no real allocation, fake token zero, and \<open>isValid\<close> false.
\<close>

definition Cleared :: "nat \<Rightarrow> SafeVar \<Rightarrow> bool" where
  "Cleared n s \<longleftrightarrow>
     buffer s = replicate n 0 \<and> key s = replicate n 0 \<and> nonce s = replicate 12 0 \<and>
     realMemory s = None \<and> fakeMemoryAddress s = 0 \<and> \<not> isValid s"

text \<open>
  The 32-byte cipher key as the specification gives it: the key buffer padded with zeros
  to 32 bytes, or its first 32 bytes when it has more.
\<close>

definition cipher_key :: "byte list \<Rightarrow> byte list" where
  "cipher_key k = take 32 (k @ replicate 32 0)"

text \<open>
  The digest as the specification gives it: FNV-1a with seed \<open>0x811C9DC5\<close> and prime
  \<open>0x01000193\<close>, byte-wise \<open>hash = (hash XOR byte) * prime\<close>.
\<close>

definition fnv1a :: "byte list \<Rightarrow> u32" where
  "fnv1a bytes = foldl (\<lambda>hash b. (hash XOR ucast b) * 0x01000193) 0x811C9DC5 bytes"

text \<open>
  Detection of a divergence by checksum, as the specification words it: the digest of
  the bytes in the real allocation is not the stored checksum.
\<close>

definition checksum_detects_divergence :: "SafeVar \<Rightarrow> world \<Rightarrow> bool" where
  "checksum_detects_divergence s w =
    (case real_content s w of
       None \<Rightarrow> False
     | Some mem \<Rightarrow> fnv1a mem \<noteq> lastChecksum s)"

section \<open>Properties of the cipher\<close>

declare rounds.simps [simp del]
declare Encrypt_loop.simps [simp del]

lemma length_QuarterRound [simp]: "length (QuarterRound s a b c d) = length s"
  by (simp add: QuarterRound_def Let_def)

lemma length_double_round [simp]: "length (double_round ws) = length ws"
  by (simp add: double_round_def Let_def)

lemma length_rounds [simp]: "length (rounds i ws) = length ws"
  by (induction i ws rule: rounds.induct) (subst rounds.simps, simp)

lemma length_add_back:
  "length (fold (\<lambda>i ws. ws[i := ws ! i + st ! i]) is ws) = length ws"
  by (induction "is" arbitrary: ws) simp_all

lemma length_concat_word_bytes: "length (concat (map word_bytes ws)) = 4 * length ws"
  by (induction ws) (simp_all add: word_bytes_def)

lemma length_Block: "length (Block state) = 4 * length state"
  by (simp add: Block_def Let_def length_concat_word_bytes length_add_back)

lemma length_initial_state [simp]: "length (initial_state k nc) = 16"
  by (simp add: initial_state_def constants_def)

lemma xor_twice: "length a \<le> length ks \<Longrightarrow> map2 (XOR) (map2 (XOR) a ks) ks = (a :: byte list)"
proof (induction a arbitrary: ks)
  case Nil
  then show ?case by simp
next
  case (Cons x xs)
  then obtain k ks' where "ks = k # ks'" by (cases ks) auto
  with Cons show ?case by (simp add: xor.assoc)
qed

lemma Encrypt_loop_Nil: "Encrypt_loop st c [] = []"
  by (subst Encrypt_loop.simps) simp

lemma Encrypt_loop_step:
  "xs \<noteq> [] \<Longrightarrow>
   Encrypt_loop st c xs =
     map2 (XOR) (take (min (length xs) 64) xs) (Block (st[12 := c]))
       @ Encrypt_loop (st[12 := c]) (c + 1) (drop (min (length xs) 64) xs)"
  by (subst Encrypt_loop.simps) (simp add: Let_def min_def)

lemma length_Encrypt_loop:
  "length st = 16 \<Longrightarrow> length (Encrypt_loop st c xs) = length xs"
proof (induction st c xs rule: Encrypt_loop.induct)
  case (1 state counter input)
  show ?case
  proof (cases "input = []")
    case True
    then show ?thesis by (simp add: Encrypt_loop_Nil)
  next
    case False
    have "length (Encrypt_loop (state[12 := counter]) (counter + 1) (drop (min (length input) 64) input))
          = length (drop (min (length input) 64) input)"
      using 1(1)[OF False refl refl refl] 1(2)
      by (cases "length input < 64") (simp_all add: min_def Encrypt_loop_Nil)
    with False 1(2) show ?thesis
      by (simp add: Encrypt_loop_step length_Block)
  qed
qed

lemma Encrypt_loop_involution:
  "length st = 16 \<Longrightarrow> Encrypt_loop st c (Encrypt_loop st c xs) = xs"
proof (induction st c xs rule: Encrypt_loop.induct)
  case (1 state counter input)
  show ?case
  proof (cases "input = []")
    case True
    then show ?thesis by (simp add: Encrypt_loop_Nil)
  next
    case False
    let ?st = "state[12 := counter]"
    let ?bs = "min (length input) 64"
    let ?hd = "map2 (XOR) (take ?bs input) (Block ?st)"
    let ?tl = "Encrypt_loop ?st (counter + 1) (drop ?bs input)"
    have len16: "length ?st = 16" using 1(2) by simp
    have out: "Encrypt_loop state counter input = ?hd @ ?tl"
      using False by (rule Encrypt_loop_step)
    have lhd: "length ?hd = ?bs"
      using len16 by (simp add: length_Block)
    have ltl: "length ?tl = length input - ?bs"
      using len16 by (simp add: length_Encrypt_loop)
    have lout: "length (?hd @ ?tl) = length input"
      using lhd ltl by simp
    have ne: "?hd @ ?tl \<noteq> []"
    proof
      assume "?hd @ ?tl = []"
      then have "length (?hd @ ?tl) = 0" by (simp only: list.size)
      with lout False show False by simp
    qed
    have IH: "Encrypt_loop ?st (counter + 1) ?tl = drop ?bs input"
      using 1(1)[OF False refl refl refl] len16
      by (cases "length input < 64") (simp_all add: min_def Encrypt_loop_Nil)
    have tk: "take ?bs (?hd @ ?tl) = ?hd" using lhd by simp
    have dr: "drop ?bs (?hd @ ?tl) = ?tl" using lhd by simp
    have "Encrypt_loop state counter (?hd @ ?tl)
          = map2 (XOR) (take (min (length (?hd @ ?tl)) 64) (?hd @ ?tl)) (Block ?st)
            @ Encrypt_loop ?st (counter + 1) (drop (min (length (?hd @ ?tl)) 64) (?hd @ ?tl))"
      using ne by (rule Encrypt_loop_step)
    also have "\<dots> = map2 (XOR) ?hd (Block ?st) @ Encrypt_loop ?st (counter + 1) ?tl"
      unfolding lout tk dr ..
    also have "map2 (XOR) ?hd (Block ?st) = take ?bs input"
      using len16 by (intro xor_twice) (simp add: length_Block)
    also have "take ?bs input @ Encrypt_loop ?st (counter + 1) ?tl = input"
      using IH by simp
    finally show ?thesis using out by simp
  qed
qed

lemma Encrypt_loop_inject:
  assumes "length st = 16" and "Encrypt_loop st c xs = Encrypt_loop st c ys"
  shows "xs = ys"
proof -
  have "xs = Encrypt_loop st c (Encrypt_loop st c xs)"
    using assms(1) by (simp add: Encrypt_loop_involution)
  also have "\<dots> = Encrypt_loop st c (Encrypt_loop st c ys)"
    using assms(2) by simp
  also have "\<dots> = ys"
    using assms(1) by (simp add: Encrypt_loop_involution)
  finally show ?thesis .
qed

text \<open>
  Claim C2 (cipher involution).  For every 32-byte key, every 12-byte nonce and every
  input buffer \<open>b\<close>, of any length, \<^verbatim>\<open>Encrypt\<close> returns a buffer of the same length, and
  \<^verbatim>\<open>Encrypt\<close> of that buffer under the same key and nonce returns \<open>b\<close>.
\<close>

theorem Encrypt_involution:
  assumes "length k = 32" and "length nc = 12"
  shows "\<exists>c. Encrypt b k nc = Inr c \<and> length c = length b \<and> Encrypt c k nc = Inr b"
  using assms by (simp add: Encrypt_def Encrypt_loop_involution length_Encrypt_loop)

theorem Encrypt_involution_witness:
  "length ([0x9f, 0x5d, 0x21, 0x6c] @ replicate 28 (0 :: byte)) = 32 \<and>
   length [0xcc, 0xbc, 0x54, 0xf1, 0x1, 0xf9, 0xf5, 0x7c, 0x78, 0x58, 0x6b, 0xeb :: byte] = 12 \<and>
   (\<exists>c. Encrypt (replicate 64 0) ([0x9f, 0x5d, 0x21, 0x6c] @ replicate 28 0)
          [0xcc, 0xbc, 0x54, 0xf1, 0x1, 0xf9, 0xf5, 0x7c, 0x78, 0x58, 0x6b, 0xeb] = Inr c \<and>
        length c = length (replicate 64 (0 :: byte)) \<and>
        Encrypt c ([0x9f, 0x5d, 0x21, 0x6c] @ replicate 28 0)
          [0xcc, 0xbc, 0x54, 0xf1, 0x1, 0xf9, 0xf5, 0x7c, 0x78, 0x58, 0x6b, 0xeb]
          = Inr (replicate 64 0))"
proof -
  have k: "length ([0x9f, 0x5d, 0x21, 0x6c] @ replicate 28 (0 :: byte)) = 32" by simp
  have n: "length [0xcc, 0xbc, 0x54, 0xf1, 0x1, 0xf9, 0xf5, 0x7c, 0x78, 0x58, 0x6b, 0xeb :: byte] = 12"
    by simp
  show ?thesis using k n Encrypt_involution [OF k n, of "replicate 64 0"] by blast
qed

lemma LoadLE32_cong:
  assumes "a ! off = b ! off" and "a ! (off + 1) = b ! (off + 1)"
    and "a ! (off + 2) = b ! (off + 2)" and "a ! (off + 3) = b ! (off + 3)"
  shows "LoadLE32 a off = LoadLE32 b off"
  unfolding LoadLE32_def using assms by simp

lemma nth_of_take_eq:
  assumes "take m a = take m b" and "i < m"
  shows "a ! i = b ! i"
proof -
  have "a ! i = take m a ! i" using assms(2) by simp
  also have "\<dots> = take m b ! i" using assms(1) by simp
  also have "\<dots> = b ! i" using assms(2) by simp
  finally show ?thesis .
qed

lemma initial_state_nonce:
  assumes "take 8 nc = take 8 nc'"
  shows "initial_state k nc = initial_state k nc'"
proof -
  have nth: "nc ! i = nc' ! i" if "i < 8" for i
    using assms that by (rule nth_of_take_eq)
  have "LoadLE32 nc 0 = LoadLE32 nc' 0"
    by (rule LoadLE32_cong) (simp_all add: nth)
  moreover have "LoadLE32 nc 4 = LoadLE32 nc' 4"
    by (rule LoadLE32_cong) (simp_all add: nth)
  ultimately show ?thesis by (simp add: initial_state_def)
qed

text \<open>
  Claim C10 (the last four nonce bytes are ignored).  For every key and input buffer,
  two 12-byte nonces that agree on bytes 0 to 7 give the same result of \<^verbatim>\<open>Encrypt\<close>:
  only \<open>nonce[0..8)\<close> is loaded into the state, and word 13 is the constant 0.
\<close>

theorem Encrypt_ignores_nonce_tail:
  assumes "length nc = 12" and "length nc' = 12" and "take 8 nc = take 8 nc'"
  shows "Encrypt b k nc = Encrypt b k nc'"
  using assms(1,2) initial_state_nonce[OF assms(3), of k] by (simp add: Encrypt_def)

theorem Encrypt_ignores_nonce_tail_witness:
  "length [1, 2, 3, 4, 5, 6, 7, 8, 0, 0, 0, 0 :: byte] = 12 \<and>
   length [1, 2, 3, 4, 5, 6, 7, 8, 9, 10, 11, 12 :: byte] = 12 \<and>
   take 8 [1, 2, 3, 4, 5, 6, 7, 8, 0, 0, 0, 0 :: byte]
     = take 8 [1, 2, 3, 4, 5, 6, 7, 8, 9, 10, 11, 12] \<and>
   Encrypt [42, 0, 0, 0] (replicate 32 7) [1, 2, 3, 4, 5, 6, 7, 8, 0, 0, 0, 0]
     = Encrypt [42, 0, 0, 0] (replicate 32 7) [1, 2, 3, 4, 5, 6, 7, 8, 9, 10, 11, 12]"
proof -
  have a: "length [1, 2, 3, 4, 5, 6, 7, 8, 0, 0, 0, 0 :: byte] = 12" by simp
  have b: "length [1, 2, 3, 4, 5, 6, 7, 8, 9, 10, 11, 12 :: byte] = 12" by simp
  have c: "take 8 [1, 2, 3, 4, 5, 6, 7, 8, 0, 0, 0, 0 :: byte]
             = take 8 [1, 2, 3, 4, 5, 6, 7, 8, 9, 10, 11, 12]" by simp
  show ?thesis
    using a b c Encrypt_ignores_nonce_tail [OF a b c, of "[42, 0, 0, 0]" "replicate 32 7"]
    by blast
qed

section \<open>Properties of the container\<close>

subsection \<open>The cipher key, and the result of one call\<close>

lemma memcpy_whole: "length src = n \<Longrightarrow> length dest \<le> n \<Longrightarrow> memcpy dest src n = src"
  by (simp add: memcpy_def)

lemma length_GenerateKey_fold:
  "length (fold (\<lambda>i keyOut. keyOut[i := f i]) is ks) = length ks"
  by (induction "is" arbitrary: ks) simp_all

lemma length_GenerateKey [simp]: "length (GenerateKey n os) = n"
  by (simp add: GenerateKey_def length_GenerateKey_fold)

lemma length_GenerateNonce [simp]: "length (GenerateNonce os) = 12"
  by (simp add: GenerateNonce_def)

lemma length_cipher_key [simp]: "length (cipher_key k) = 32"
  by (simp add: cipher_key_def)

lemma cipher_key_short: "length k \<le> 32 \<Longrightarrow> cipher_key k = k @ replicate (32 - length k) 0"
  by (simp add: cipher_key_def)

lemma cipher_key_long: "32 \<le> length k \<Longrightarrow> cipher_key k = take 32 k"
  by (simp add: cipher_key_def)

lemma cipher_key_cong: "take 32 k = take 32 k' \<Longrightarrow> length k = length k' \<Longrightarrow> cipher_key k = cipher_key k'"
  by (simp add: cipher_key_def)

lemma InitializeCryptoState_eq:
  "length (key s) = n \<Longrightarrow> InitializeCryptoState n s = (cipher_key (key s), replicate n 0)"
  by (simp add: InitializeCryptoState_def memcpy_def cipher_key_def Let_def
      replicate_add [symmetric] del: replicate_add)

lemma Obfuscate_eq:
  assumes "length (key s) = n" "length v = n" "8 \<le> length (nonce s)"
  shows "Obfuscate n s v = Inr (Encrypt_loop (initial_state (cipher_key (key s)) (nonce s)) 0 v)"
  using assms by (simp add: Obfuscate_def InitializeCryptoState_eq memcpy_whole Encrypt_def)

lemma Deobfuscate_eq:
  assumes "length (key s) = n" "length b = n" "8 \<le> length (nonce s)"
  shows "Deobfuscate n s b = Inr (Encrypt_loop (initial_state (cipher_key (key s)) (nonce s)) 0 b)"
  using assms
  by (simp add: Deobfuscate_def InitializeCryptoState_eq memcpy_whole Encrypt_def
      length_Encrypt_loop)

lemma Obfuscate_cong:
  "key s = key t \<Longrightarrow> nonce s = nonce t \<Longrightarrow> Obfuscate n s v = Obfuscate n t v"
  by (simp add: Obfuscate_def InitializeCryptoState_def)

lemma Deobfuscate_cong:
  "key s = key t \<Longrightarrow> nonce s = nonce t \<Longrightarrow> Deobfuscate n s b = Deobfuscate n t b"
  by (simp add: Deobfuscate_def InitializeCryptoState_def)

lemma Obfuscate_error: "Obfuscate n s v = Inl e \<Longrightarrow> e = OutOfBounds"
  by (auto simp: Obfuscate_def Encrypt_def Let_def split: if_splits prod.splits)

lemma Deobfuscate_error: "Deobfuscate n s b = Inl e \<Longrightarrow> e = OutOfBounds"
  by (auto simp: Deobfuscate_def Encrypt_def Let_def split: if_splits sum.splits prod.splits)

lemma length_Obfuscate:
  "Obfuscate n s v = Inr c \<Longrightarrow> length v = n \<Longrightarrow> length c = n"
  by (auto simp: Obfuscate_def InitializeCryptoState_def Encrypt_def Let_def memcpy_def
      length_Encrypt_loop split: if_splits)

lemma length_Deobfuscate:
  "Deobfuscate n s b = Inr v \<Longrightarrow> length b = n \<Longrightarrow> length v = n"
  by (auto simp: Deobfuscate_def InitializeCryptoState_def Encrypt_def Let_def memcpy_def
      length_Encrypt_loop split: if_splits sum.splits)

lemma Clear_Inr:
  assumes "Clear n os s w = (Inr u, s1, w1)"
  shows "realMemory s1 = None \<and> buffer s1 = replicate n 0 \<and> key s1 = replicate n 0 \<and>
         nonce s1 = replicate 12 0 \<and> fakeMemoryAddress s1 = 0 \<and>
         isValid s1 = isValid s \<and> lastChecksum s1 = lastChecksum s \<and>
         fakeBaseAddress w1 = fakeBaseAddress w"
  using assms
  by (auto simp: Clear_def Let_def FreeRealMemory_def split: option.splits if_splits)

lemma Clear_fresh:
  "realMemory s = None \<Longrightarrow> fst (Clear n os s w) = Inr ()"
  by (simp add: Clear_def)

lemma Clear_succeeds:
  "well_formed n s w \<Longrightarrow> VirtualFree os \<Longrightarrow> fst (Clear n os s w) = Inr ()"
  by (auto simp: well_formed_def Clear_def Let_def FreeRealMemory_def split: option.splits)

lemma Set_Inr:
  assumes "Set n os s w v = (Inr r, s', w')"
  shows "r = v \<and> key s' = GenerateKey n os \<and> nonce s' = GenerateNonce os \<and>
         Obfuscate n s' v = Inr (buffer s') \<and>
         (\<exists>p. VirtualAlloc os = Some p \<and> realMemory s' = Some p \<and>
              heap w' p = Some (memcpy (replicate n 0) (buffer s') n)) \<and>
         isValid s' \<and> lastChecksum s' = ComputeChecksumFNV (buffer s')"
proof -
  obtain s1 w1 where cl: "Clear n os s w = (Inr (), s1, w1)"
    using assms by (auto simp: Set_def split: prod.splits sum.splits)
  let ?s2 = "s1\<lparr>key := GenerateKey n os, nonce := GenerateNonce os\<rparr>"
  obtain c where ob: "Obfuscate n ?s2 v = Inr c"
    using assms cl by (auto simp: Set_def Let_def split: sum.splits)
  obtain p where va: "VirtualAlloc os = Some p"
    using assms cl ob
    by (auto simp: Set_def Let_def AllocateRealMemory_def split: option.splits)
  have res: "r = v"
    "s' = ?s2\<lparr>buffer := c, realMemory := Some p, lastChecksum := ComputeChecksumFNV c,
               fakeMemoryAddress := fakeBaseAddress w1, isValid := True\<rparr>"
    "w' = w1\<lparr>heap := (heap w1)(p \<mapsto> memcpy (replicate n 0) c n),
             fakeBaseAddress := fakeBaseAddress w1 + (of_nat n + 0x10)\<rparr>"
    using assms cl ob va
    by (simp_all add: Set_def Let_def AllocateRealMemory_def AllocateFakeMemory_def)
  have "Obfuscate n s' v = Obfuscate n ?s2 v"
    by (rule Obfuscate_cong) (simp_all add: res)
  with ob res va show ?thesis by simp
qed

lemma Set_succeeds:
  assumes "length v = n" and "fst (Clear n os s w) = Inr ()" and "VirtualAlloc os = Some p"
  shows "fst (Set n os s w v) = Inr v"
proof -
  obtain s1 w1 where cl: "Clear n os s w = (Inr (), s1, w1)"
    using assms(2) by (cases "Clear n os s w") auto
  let ?s2 = "s1\<lparr>key := GenerateKey n os, nonce := GenerateNonce os\<rparr>"
  have "\<exists>c. Obfuscate n ?s2 v = Inr c"
    using Obfuscate_eq[of ?s2 n v] assms(1) by simp
  then obtain c where ob: "Obfuscate n ?s2 v = Inr c" ..
  show ?thesis
    using cl ob assms(3)
    by (simp add: Set_def Let_def AllocateRealMemory_def AllocateFakeMemory_def)
qed

lemma Set_buffer:
  assumes "length v = n" and "Set n os s w v = (Inr r, s', w')"
  shows "buffer s' = Encrypt_loop (initial_state (cipher_key (key s')) (nonce s')) 0 v"
proof -
  from Set_Inr[OF assms(2)] have
    k: "key s' = GenerateKey n os" and nc: "nonce s' = GenerateNonce os" and
    ob: "Obfuscate n s' v = Inr (buffer s')"
    by blast+
  have "length (key s') = n" "8 \<le> length (nonce s')" using k nc by simp_all
  from Obfuscate_eq[OF this(1) assms(1) this(2)] ob show ?thesis by simp
qed

lemma Set_mirror:
  assumes "length v = n" and "Set n os s w v = (Inr r, s', w')"
  shows "real_content s' w' = Some (buffer s')"
proof -
  from Set_Inr[OF assms(2)] obtain p where
    ob: "Obfuscate n s' v = Inr (buffer s')" and
    rm: "realMemory s' = Some p" and
    hp: "heap w' p = Some (memcpy (replicate n 0) (buffer s') n)"
    by blast
  have "length (buffer s') = n" using ob assms(1) by (rule length_Obfuscate)
  with rm hp show ?thesis by (simp add: real_content_def memcpy_whole)
qed

subsection \<open>Well-formed states and the outcomes of Get\<close>

lemma ValidateMemory_well_formed:
  assumes "well_formed n s w" and "realMemory s = Some p"
  shows "\<exists>mem. heap w p = Some mem \<and> ValidateMemory n s w = Inr (mem = buffer s)"
  using assms
  by (auto simp: well_formed_def ValidateMemory_def memcpy_def split: option.splits)

lemma Get_length:
  assumes "well_formed n s w" and "Get n s w raw = Inr v"
  shows "length v = n"
proof -
  have lb: "length (buffer s) = n" using assms(1) by (simp add: well_formed_def)
  show ?thesis
  proof (cases raw)
    case True
    with assms(2) lb show ?thesis
      by (auto simp: Get_def memcpy_def split: option.splits sum.splits if_splits)
  next
    case False
    with assms(2) obtain d where "Deobfuscate n s (buffer s) = Inr d" and "v = d"
      by (auto simp: Get_def split: option.splits sum.splits if_splits)
    with lb show ?thesis by (simp add: length_Deobfuscate)
  qed
qed

lemma well_formed_Clear:
  assumes "well_formed n s w" and "Clear n os s w = (r, s', w')"
  shows "well_formed n s' w'"
  using assms
  by (auto simp: well_formed_def Clear_def Let_def FreeRealMemory_def
      split: option.splits if_splits)

lemma well_formed_Set:
  assumes "well_formed n s w" and "length v = n" and "Set n os s w v = (r, s', w')"
  shows "well_formed n s' w'"
proof -
  obtain rc s1 w1 where cl: "Clear n os s w = (rc, s1, w1)"
    by (cases "Clear n os s w") auto
  have wf1: "well_formed n s1 w1" using assms(1) cl by (rule well_formed_Clear)
  show ?thesis
  proof (cases rc)
    case (Inl e)
    with assms(3) cl wf1 show ?thesis by (simp add: Set_def)
  next
    case (Inr u)
    then have none: "realMemory s1 = None" using cl by (simp add: Clear_Inr)
    let ?s2 = "s1\<lparr>key := GenerateKey n os, nonce := GenerateNonce os\<rparr>"
    have wf2: "well_formed n ?s2 w1" using wf1 none by (simp add: well_formed_def)
    show ?thesis
    proof (cases "Obfuscate n ?s2 v")
      case (Inl e)
      with assms(3) cl Inr wf2 show ?thesis by (simp add: Set_def Let_def)
    next
      case ob: (Inr c)
      then have lc: "length c = n" using assms(2) by (rule length_Obfuscate)
      show ?thesis
      proof (cases "VirtualAlloc os")
        case None
        with assms(3) cl Inr ob wf2 lc none show ?thesis
          by (auto simp: Set_def Let_def AllocateRealMemory_def well_formed_def)
      next
        case (Some p)
        with assms(3) cl Inr ob wf2 lc none show ?thesis
          by (auto simp: Set_def Let_def AllocateRealMemory_def AllocateFakeMemory_def
              well_formed_def memcpy_def)
      qed
    qed
  qed
qed

lemma well_formed_ReKey:
  assumes "well_formed n s w" and "ReKey n os s w = (r, s', w')"
  shows "well_formed n s' w'"
proof (cases "Get n s w False")
  case (Inl e)
  with assms show ?thesis by (simp add: ReKey_def)
next
  case (Inr current)
  then have lc: "length current = n" using assms(1) by (simp add: Get_length)
  obtain r2 s2 w2 where st: "Set n os s w current = (r2, s2, w2)"
    by (cases "Set n os s w current") auto
  then have "well_formed n s2 w2" using assms(1) lc by (simp add: well_formed_Set)
  with assms(2) Inr st show ?thesis
    by (cases r2) (simp_all add: ReKey_def)
qed

lemma well_formed_Deserialize:
  assumes "well_formed n s w" and "Deserialize n pad s data = (r, s')"
  shows "well_formed n s' w"
  using assms
  by (auto simp: well_formed_def Deserialize_def Let_def memcpy_def Encrypt_def
      length_Encrypt_loop split: if_splits option.splits)

lemma well_formed_uninitialized:
  "length b = n \<Longrightarrow> length k = n \<Longrightarrow> length nc = 12 \<Longrightarrow>
   well_formed n (uninitialized b k nc) w"
  by (simp add: well_formed_def uninitialized_def)

lemma well_formed_external_write:
  assumes "well_formed n s w"
  shows "well_formed n s (external_write w ptr bytes)"
  using assms
  by (auto simp: well_formed_def external_write_def split: option.splits)

lemma reachable_well_formed:
  assumes "reachable n sw"
  shows "well_formed n (fst sw) (snd sw)"
  using assms
proof (induction rule: reachable.induct)
  case (construct b k nc v os w r s' w')
  then show ?case
    using well_formed_Set[OF well_formed_uninitialized] by fastforce
next
  case (after_Set s w v os r s' w')
  then show ?case using well_formed_Set by fastforce
next
  case (after_ReKey s w os r s' w')
  then show ?case using well_formed_ReKey by fastforce
next
  case (after_Deserialize s w pad data r s')
  then show ?case using well_formed_Deserialize by fastforce
next
  case (after_Clear s w os r s' w')
  then show ?case using well_formed_Clear by fastforce
qed

lemma Get_null: "realMemory s = None \<Longrightarrow> Get n s w rawMode = Inl InvalidMemoryState"
  by (simp add: Get_def)

lemma real_content_Some:
  "real_content s w = Some mem \<Longrightarrow> \<exists>p. realMemory s = Some p \<and> heap w p = Some mem"
  by (auto simp: real_content_def split: option.splits)

lemma Get_mismatch:
  assumes "well_formed n s w" and "real_content s w = Some mem" and "mem \<noteq> buffer s"
  shows "Get n s w rawMode = Inl MemoryValidationFailed"
proof -
  from real_content_Some[OF assms(2)] obtain p where
    p: "realMemory s = Some p" and hp: "heap w p = Some mem" by blast
  from ValidateMemory_well_formed[OF assms(1) p] hp
  have "ValidateMemory n s w = Inr (mem = buffer s)" by auto
  with p assms(3) show ?thesis by (simp add: Get_def)
qed

lemma Get_raw:
  assumes "well_formed n s w" and "real_content s w = Some (buffer s)"
  shows "Get n s w True = Inr (buffer s)"
proof -
  from real_content_Some[OF assms(2)] obtain p where
    p: "realMemory s = Some p" and hp: "heap w p = Some (buffer s)" by blast
  from ValidateMemory_well_formed[OF assms(1) p] hp
  have vm: "ValidateMemory n s w = Inr True" by auto
  have "length (buffer s) = n" using assms(1) by (simp add: well_formed_def)
  with p vm show ?thesis by (simp add: Get_def memcpy_whole)
qed

lemma Get_decrypt:
  assumes "well_formed n s w" and "real_content s w = Some (buffer s)"
  shows "Get n s w False =
           (case Deobfuscate n s (buffer s) of
              Inl e \<Rightarrow> Inl e
            | Inr decrypted \<Rightarrow>
                (case Obfuscate n s decrypted of
                   Inl e \<Rightarrow> Inl e
                 | Inr verify \<Rightarrow>
                     if verify \<noteq> buffer s then Inl DecryptionVerificationFailed
                     else Inr decrypted))"
proof -
  from real_content_Some[OF assms(2)] obtain p where
    p: "realMemory s = Some p" and hp: "heap w p = Some (buffer s)" by blast
  from ValidateMemory_well_formed[OF assms(1) p] hp
  have vm: "ValidateMemory n s w = Inr True" by auto
  with p show ?thesis by (simp add: Get_def)
qed

lemma Get_cipher_calls:
  assumes "well_formed n s w" and "real_content s w = Some (buffer s)"
  shows "\<exists>decrypted verify.
           Encrypt (buffer s) (cipher_key (key s)) (nonce s) = Inr decrypted \<and>
           Encrypt decrypted (cipher_key (key s)) (nonce s) = Inr verify \<and>
           Get n s w False =
             (if verify \<noteq> buffer s then Inl DecryptionVerificationFailed else Inr decrypted)"
proof -
  have l: "length (key s) = n" "length (buffer s) = n" "8 \<le> length (nonce s)"
    using assms(1) by (simp_all add: well_formed_def)
  let ?st = "initial_state (cipher_key (key s)) (nonce s)"
  let ?d = "Encrypt_loop ?st 0 (buffer s)"
  let ?v = "Encrypt_loop ?st 0 ?d"
  have ld: "length ?d = n" using l by (simp add: length_Encrypt_loop)
  have d: "Deobfuscate n s (buffer s) = Inr ?d"
    using l by (intro Deobfuscate_eq)
  have o: "Obfuscate n s ?d = Inr ?v"
    using l ld by (intro Obfuscate_eq)
  have e1: "Encrypt (buffer s) (cipher_key (key s)) (nonce s) = Inr ?d"
    using l by (simp add: Encrypt_def)
  have e2: "Encrypt ?d (cipher_key (key s)) (nonce s) = Inr ?v"
    using l by (simp add: Encrypt_def)
  have "Get n s w False = (if ?v \<noteq> buffer s then Inl DecryptionVerificationFailed else Inr ?d)"
    using Get_decrypt[OF assms] d o by simp
  with e1 e2 show ?thesis by blast
qed

lemma Get_decrypts:
  assumes "well_formed n s w" and "real_content s w = Some (buffer s)"
  shows "Get n s w False = Encrypt (buffer s) (cipher_key (key s)) (nonce s)"
proof -
  have l: "length (key s) = n" "length (buffer s) = n" "8 \<le> length (nonce s)"
    using assms(1) by (simp_all add: well_formed_def)
  let ?st = "initial_state (cipher_key (key s)) (nonce s)"
  have d: "Deobfuscate n s (buffer s) = Inr (Encrypt_loop ?st 0 (buffer s))"
    using l by (intro Deobfuscate_eq)
  have "length (Encrypt_loop ?st 0 (buffer s)) = n"
    using l by (simp add: length_Encrypt_loop)
  then have o: "Obfuscate n s (Encrypt_loop ?st 0 (buffer s)) = Inr (buffer s)"
    using Obfuscate_eq[OF l(1) _ l(3)] by (simp add: Encrypt_loop_involution)
  show ?thesis using Get_decrypt[OF assms] d o l by (simp add: Encrypt_def)
qed

lemma Get_match_cases:
  assumes "well_formed n s w" and "real_content s w = Some (buffer s)"
  shows "\<exists>x. Get n s w rawMode = Inr x"
proof (cases rawMode)
  case True
  with Get_raw[OF assms] show ?thesis by simp
next
  case False
  have "8 \<le> length (nonce s)" using assms(1) by (simp add: well_formed_def)
  with False Get_decrypts[OF assms] show ?thesis by (simp add: Encrypt_def)
qed

text \<open>
  Claim C3 (the failures of \<^verbatim>\<open>Get\<close>).  In a well-formed state, \<^verbatim>\<open>Get\<close> fails with
  "Invalid memory state" exactly when there is no real allocation, and with "Memory
  validation failed" exactly when there is one whose bytes differ from the ciphertext
  \<open>buffer\<close>.  When the two agree, raw mode returns the ciphertext bytes; otherwise
  \<^verbatim>\<open>Get\<close> decrypts the ciphertext with the cipher under the 32-byte cipher key and the
  nonce, encrypts the result again under the same key and nonce, fails with "Decryption
  verification failed" when that differs from the stored ciphertext and returns the
  decrypted value when it does not.  No other outcome exists.
\<close>

theorem Get_error_cases:
  assumes "well_formed n s w"
  shows "(Get n s w rawMode = Inl InvalidMemoryState \<longleftrightarrow> realMemory s = None) \<and>
         (Get n s w rawMode = Inl MemoryValidationFailed \<longleftrightarrow>
            (\<exists>mem. real_content s w = Some mem \<and> mem \<noteq> buffer s)) \<and>
         (real_content s w = Some (buffer s) \<longrightarrow>
            Get n s w True = Inr (buffer s) \<and>
            (\<exists>decrypted verify.
               Encrypt (buffer s) (cipher_key (key s)) (nonce s) = Inr decrypted \<and>
               Encrypt decrypted (cipher_key (key s)) (nonce s) = Inr verify \<and>
               Get n s w False =
                 (if verify \<noteq> buffer s then Inl DecryptionVerificationFailed
                  else Inr decrypted)))"
proof (cases "real_content s w")
  case None
  then have "realMemory s = None"
    using assms by (auto simp: real_content_def well_formed_def split: option.splits)
  with None show ?thesis by (simp add: Get_null)
next
  case (Some mem)
  then have alloc: "realMemory s \<noteq> None"
    by (auto simp: real_content_def split: option.splits)
  show ?thesis
  proof (cases "mem = buffer s")
    case False
    with Some alloc Get_mismatch[OF assms Some False, of rawMode] show ?thesis by simp
  next
    case True
    with Some have rc: "real_content s w = Some (buffer s)" by simp
    have "Get n s w rawMode \<noteq> Inl InvalidMemoryState"
      and "Get n s w rawMode \<noteq> Inl MemoryValidationFailed"
      using Get_match_cases[OF assms rc, of rawMode] by auto
    with alloc rc Get_raw[OF assms rc] Get_cipher_calls[OF assms rc] show ?thesis by simp
  qed
qed

theorem Get_error_cases_witness:
  "well_formed 4
     \<lparr>buffer = [1, 2, 3, 4], key = [5, 6, 7, 8], realMemory = Some 4096,
      fakeMemoryAddress = 0x10000000, nonce = replicate 12 0, lastChecksum = 0,
      isValid = True\<rparr>
     \<lparr>heap = (\<lambda>a. None)(4096 \<mapsto> [1, 2, 3, 4]), fakeBaseAddress = 0x10000014\<rparr> \<and>
   Get 4
     \<lparr>buffer = [1, 2, 3, 4], key = [5, 6, 7, 8], realMemory = Some 4096,
      fakeMemoryAddress = 0x10000000, nonce = replicate 12 0, lastChecksum = 0,
      isValid = True\<rparr>
     \<lparr>heap = (\<lambda>a. None)(4096 \<mapsto> [1, 2, 3, 4]), fakeBaseAddress = 0x10000014\<rparr>
     True = Inr [1, 2, 3, 4] \<and>
   (\<exists>decrypted verify.
      Encrypt [1, 2, 3, 4] ([5, 6, 7, 8] @ replicate 28 0) (replicate 12 0) = Inr decrypted \<and>
      Encrypt decrypted ([5, 6, 7, 8] @ replicate 28 0) (replicate 12 0) = Inr verify \<and>
      Get 4
        \<lparr>buffer = [1, 2, 3, 4], key = [5, 6, 7, 8], realMemory = Some 4096,
         fakeMemoryAddress = 0x10000000, nonce = replicate 12 0, lastChecksum = 0,
         isValid = True\<rparr>
        \<lparr>heap = (\<lambda>a. None)(4096 \<mapsto> [1, 2, 3, 4]), fakeBaseAddress = 0x10000014\<rparr>
        False = (if verify \<noteq> [1, 2, 3, 4] then Inl DecryptionVerificationFailed
                 else Inr decrypted)) \<and>
   Get 4
     \<lparr>buffer = [1, 2, 3, 4], key = [5, 6, 7, 8], realMemory = Some 4096,
      fakeMemoryAddress = 0x10000000, nonce = replicate 12 0, lastChecksum = 0,
      isValid = True\<rparr>
     \<lparr>heap = (\<lambda>a. None)(4096 \<mapsto> [9, 9, 9, 9]), fakeBaseAddress = 0x10000014\<rparr>
     False = Inl MemoryValidationFailed \<and>
   Get 4 (uninitialized (replicate 4 0) (replicate 4 0) (replicate 12 0)) initial_world False
     = Inl InvalidMemoryState"
proof -
  let ?s = "\<lparr>buffer = [1, 2, 3, 4], key = [5, 6, 7, 8], realMemory = Some 4096,
      fakeMemoryAddress = 0x10000000, nonce = replicate 12 0, lastChecksum = 0,
      isValid = True\<rparr>"
  let ?w = "\<lparr>heap = (\<lambda>a. None)(4096 \<mapsto> [1, 2, 3, 4]), fakeBaseAddress = 0x10000014\<rparr>"
  let ?t = "\<lparr>heap = (\<lambda>a. None)(4096 \<mapsto> [9, 9, 9, 9]), fakeBaseAddress = 0x10000014\<rparr>"
  let ?u = "uninitialized (replicate 4 0) (replicate 4 0) (replicate 12 0)"
  have wf: "well_formed 4 ?s ?w" by (simp add: well_formed_def)
  have wt: "well_formed 4 ?s ?t" by (simp add: well_formed_def)
  have wu: "well_formed 4 ?u initial_world" by (simp add: well_formed_def uninitialized_def)
  have rc: "real_content ?s ?w = Some (buffer ?s)" by (simp add: real_content_def)
  have rt: "\<exists>mem. real_content ?s ?t = Some mem \<and> mem \<noteq> buffer ?s"
    by (simp add: real_content_def)
  have ru: "realMemory ?u = None" by (simp add: uninitialized_def)
  have ck: "cipher_key (key ?s) = [5, 6, 7, 8] @ replicate 28 0"
    by (simp add: cipher_key_def)
  have a: "Get 4 ?s ?w True = Inr [1, 2, 3, 4]"
    using Get_error_cases [OF wf, of True] rc by simp
  have b: "\<exists>decrypted verify.
      Encrypt [1, 2, 3, 4] ([5, 6, 7, 8] @ replicate 28 0) (replicate 12 0) = Inr decrypted \<and>
      Encrypt decrypted ([5, 6, 7, 8] @ replicate 28 0) (replicate 12 0) = Inr verify \<and>
      Get 4 ?s ?w False = (if verify \<noteq> [1, 2, 3, 4] then Inl DecryptionVerificationFailed
                 else Inr decrypted)"
    using Get_error_cases [OF wf, of False] rc ck by simp
  have c: "Get 4 ?s ?t False = Inl MemoryValidationFailed"
    using Get_error_cases [OF wt, of False] rt by blast
  have d: "Get 4 ?u initial_world False = Inl InvalidMemoryState"
    using Get_error_cases [OF wu, of False] ru by blast
  from wf a b c d show ?thesis by blast
qed

lemma Set_then_Get:
  assumes "length v = n" and "Set n os s w v = (Inr r, s', w')"
  shows "Get n s' w' False = Inr v"
proof -
  from Set_Inr[OF assms(2)] have
    k: "key s' = GenerateKey n os" and nc: "nonce s' = GenerateNonce os" by blast+
  have buf: "buffer s' = Encrypt_loop (initial_state (cipher_key (key s')) (nonce s')) 0 v"
    using assms by (rule Set_buffer)
  have lb: "length (buffer s') = n"
    using buf assms(1) by (simp add: length_Encrypt_loop)
  have wf: "well_formed n s' w'"
    using Set_Inr[OF assms(2)] Set_mirror[OF assms] k nc lb
    by (auto simp: well_formed_def real_content_def memcpy_whole)
  have "Get n s' w' False = Encrypt (buffer s') (cipher_key (key s')) (nonce s')"
    by (rule Get_decrypts[OF wf Set_mirror[OF assms]])
  also have "\<dots> = Inr v"
    using nc buf by (simp add: Encrypt_def Encrypt_loop_involution)
  finally show ?thesis .
qed

text \<open>
  Claim C1 (round trip).  For a type of any size \<open>n\<close> and every value \<open>v\<close> of \<open>n\<close> bytes:
  when the system releases the old allocation and grants the new one, \<^verbatim>\<open>Set\<close> on a
  well-formed container (one under construction included) returns \<open>v\<close> without an error,
  and the \<^verbatim>\<open>Get\<close> that follows returns exactly \<open>v\<close>.
\<close>

theorem Set_Get_round_trip:
  assumes "length v = n" and "well_formed n s w"
    and "VirtualFree os" and "VirtualAlloc os = Some p"
  shows "case Set n os s w v of (r, s', w') \<Rightarrow> r = Inr v \<and> Get n s' w' False = Inr v"
proof -
  have "fst (Set n os s w v) = Inr v"
    using assms by (intro Set_succeeds Clear_succeeds)
  then obtain s' w' where eq: "Set n os s w v = (Inr v, s', w')"
    by (cases "Set n os s w v") auto
  from Set_then_Get[OF assms(1) eq] eq show ?thesis by simp
qed

theorem Set_Get_round_trip_witness:
  "length (replicate 33 (1 :: byte)) = 33 \<and>
   well_formed 33 (uninitialized (replicate 33 0) (replicate 33 0) (replicate 12 0)) initial_world \<and>
   VirtualFree \<lparr>rand_key = (\<lambda>i. 0xA5), rand_nonce = (\<lambda>i. 7), VirtualAlloc = Some 4096,
                VirtualFree = True\<rparr> \<and>
   VirtualAlloc \<lparr>rand_key = (\<lambda>i. 0xA5), rand_nonce = (\<lambda>i. 7), VirtualAlloc = Some 4096,
                 VirtualFree = True\<rparr> = Some 4096 \<and>
   (case Set 33 \<lparr>rand_key = (\<lambda>i. 0xA5), rand_nonce = (\<lambda>i. 7), VirtualAlloc = Some 4096,
                VirtualFree = True\<rparr>
           (uninitialized (replicate 33 0) (replicate 33 0) (replicate 12 0))
           initial_world (replicate 33 1) of
      (r, s', w') \<Rightarrow> r = Inr (replicate 33 1) \<and> Get 33 s' w' False = Inr (replicate 33 1))"
proof -
  let ?os = "\<lparr>rand_key = (\<lambda>i. 0xA5), rand_nonce = (\<lambda>i. 7), VirtualAlloc = Some 4096,
                VirtualFree = True\<rparr>"
  let ?s0 = "uninitialized (replicate 33 0) (replicate 33 0) (replicate 12 0)"
  have l: "length (replicate 33 (1 :: byte)) = 33" by simp
  have wf: "well_formed 33 ?s0 initial_world"
    by (simp add: well_formed_def uninitialized_def)
  have f: "VirtualFree ?os" by simp
  have a: "VirtualAlloc ?os = Some 4096" by simp
  from Set_Get_round_trip [OF l wf f a] l wf show ?thesis by simp
qed

subsection \<open>Serialization, and the extents of the key arrays\<close>

lemma initial_state_key_prefix:
  assumes "take 32 k = take 32 k'"
  shows "initial_state k nc = initial_state k' nc"
proof -
  have nth: "k ! i = k' ! i" if "i < 32" for i
    using assms that by (rule nth_of_take_eq)
  have "LoadLE32 k (i * 4) = LoadLE32 k' (i * 4)" if "i < 8" for i
    using that by (intro LoadLE32_cong nth) simp_all
  then have "map (\<lambda>i. LoadLE32 k (i * 4)) [0..<8] = map (\<lambda>i. LoadLE32 k' (i * 4)) [0..<8]"
    by simp
  then show ?thesis by (simp add: initial_state_def)
qed

lemma length_qword_bytes [simp]: "length (qword_bytes x) = 8"
  by (simp add: qword_bytes_def)

lemma length_pointer_bytes [simp]: "length (pointer_bytes p) = 8"
  by (simp add: pointer_bytes_def split: option.splits)

lemma length_word_bytes [simp]: "length (word_bytes x) = 4"
  by (simp add: word_bytes_def)

lemma length_memory_from_key:
  "length (memory_from_key pad s) = length (key s) + length pad + length (nonce s) + 21"
  by (simp add: memory_from_key_def)

lemma memory_from_key_long:
  "32 \<le> length (key s) \<Longrightarrow> take 32 (memory_from_key pad s) = take 32 (key s)"
  by (simp add: memory_from_key_def)

lemma memory_from_key_cong:
  "key s = key t \<Longrightarrow> realMemory s = realMemory t \<Longrightarrow>
   fakeMemoryAddress s = fakeMemoryAddress t \<Longrightarrow> nonce s = nonce t \<Longrightarrow>
   lastChecksum s = lastChecksum t \<Longrightarrow> isValid s = isValid t \<Longrightarrow>
   memory_from_key pad s = memory_from_key pad t"
  by (simp add: memory_from_key_def)

lemma Serialize_eq:
  assumes "length (key s) = n" "length (nonce s) = 12" "length (buffer s) = n"
  shows "Serialize n pad s
         = Inr (nonce s @ key s
                 @ Encrypt_loop (initial_state (memory_from_key pad s) (nonce s)) 0 (buffer s))"
  using assms
  by (simp add: Serialize_def Encrypt_def Let_def memcpy_def length_Encrypt_loop
      length_memory_from_key)

lemma Deserialize_eq:
  assumes "length (key s) = n" "length (nonce s) = 12"
    and "length nc = 12" "length k = n" "length payload = n"
  shows "Deserialize n pad s (nc @ k @ payload)
         = (Inr True,
            s\<lparr>nonce := nc, key := k,
              buffer := Encrypt_loop
                (initial_state (memory_from_key pad (s\<lparr>nonce := nc, key := k\<rparr>)) nc) 0 payload\<rparr>)"
  using assms
  by (simp add: Deserialize_def Encrypt_def Let_def memcpy_def length_memory_from_key)

lemma Deserialize_Serialize_same:
  assumes "well_formed n s w" and "Serialize n pad s = Inr bytes"
  shows "Deserialize n pad s bytes = (Inr True, s)"
proof -
  have l: "length (key s) = n" "length (nonce s) = 12" "length (buffer s) = n"
    using assms(1) by (simp_all add: well_formed_def)
  let ?st = "initial_state (memory_from_key pad s) (nonce s)"
  have b: "bytes = nonce s @ key s @ Encrypt_loop ?st 0 (buffer s)"
    using Serialize_eq[OF l] assms(2) by simp
  have same: "s\<lparr>nonce := nonce s, key := key s\<rparr> = s" by simp
  have "Deserialize n pad s bytes
        = (Inr True, s\<lparr>nonce := nonce s, key := key s,
                        buffer := Encrypt_loop ?st 0 (Encrypt_loop ?st 0 (buffer s))\<rparr>)"
    unfolding b using Deserialize_eq[OF l(1,2) l(2) l(1), of "Encrypt_loop ?st 0 (buffer s)" pad] l
    by (simp add: length_Encrypt_loop)
  then show ?thesis by (simp add: Encrypt_loop_involution)
qed

lemma length_Serialize:
  assumes "well_formed n s w" and "Serialize n pad s = Inr bytes"
  shows "length bytes = n + 12 + n"
proof -
  have l: "length (key s) = n" "length (nonce s) = 12" "length (buffer s) = n"
    using assms(1) by (simp_all add: well_formed_def)
  from Serialize_eq[OF l] assms(2) l show ?thesis by (auto simp: length_Encrypt_loop)
qed

lemma Serialize_succeeds:
  assumes "well_formed n s w"
  shows "\<exists>bytes. Serialize n pad s = Inr bytes"
proof -
  have l: "length (key s) = n" "length (nonce s) = 12" "length (buffer s) = n"
    using assms(1) by (simp_all add: well_formed_def)
  from Serialize_eq[OF l] show ?thesis by blast
qed

text \<open>
  Claim C6 (serialize, deserialize, read back).  For a well-formed container from which
  \<^verbatim>\<open>Get\<close> returns \<open>v\<close>, \<^verbatim>\<open>Serialize\<close> returns a buffer of \<open>2n + 12\<close> bytes, and \<^verbatim>\<open>Deserialize\<close>
  of that buffer on the same container returns true and leaves the container as it was,
  so that \<^verbatim>\<open>Get\<close> returns \<open>v\<close> again.  Both cipher calls read the same 32 bytes of the object
  from \<open>key\<close> on, whatever the size of the key array.
\<close>

theorem Serialize_Deserialize_Get:
  assumes "well_formed n s w" and "Get n s w False = Inr v"
  shows "\<exists>bytes. Serialize n pad s = Inr bytes \<and> length bytes = n + 12 + n \<and>
           (case Deserialize n pad s bytes of
              (r, s') \<Rightarrow> r = Inr True \<and> s' = s \<and> Get n s' w False = Inr v)"
proof -
  from Serialize_succeeds[OF assms(1)] obtain bytes where b: "Serialize n pad s = Inr bytes" ..
  from Deserialize_Serialize_same[OF assms(1) b] length_Serialize[OF assms(1) b] b assms(2)
  show ?thesis by simp
qed

theorem Serialize_Deserialize_Get_witness:
  "case Set 4 \<lparr>rand_key = (\<lambda>i. 0xA5), rand_nonce = (\<lambda>i. 7), VirtualAlloc = Some 4096,
              VirtualFree = True\<rparr>
         (uninitialized (replicate 4 0) (replicate 4 0) (replicate 12 0))
         initial_world [50, 0, 0, 0] of
     (r, s, w) \<Rightarrow>
       well_formed 4 s w \<and> Get 4 s w False = Inr [50, 0, 0, 0] \<and>
       (\<exists>bytes. Serialize 4 [] s = Inr bytes \<and> length bytes = 20 \<and>
          (case Deserialize 4 [] s bytes of
             (r', s') \<Rightarrow> r' = Inr True \<and> s' = s \<and> Get 4 s' w False = Inr [50, 0, 0, 0]))"
proof -
  let ?os = "\<lparr>rand_key = (\<lambda>i. 0xA5), rand_nonce = (\<lambda>i. 7), VirtualAlloc = Some 4096,
              VirtualFree = True\<rparr>"
  let ?s0 = "uninitialized (replicate 4 0) (replicate 4 0) (replicate 12 0)"
  have "fst (Set 4 ?os ?s0 initial_world [50, 0, 0, 0]) = Inr [50, 0, 0, 0]"
    by (rule Set_succeeds[where p = 4096]) (simp_all add: Clear_fresh uninitialized_def)
  then obtain s w where eq: "Set 4 ?os ?s0 initial_world [50, 0, 0, 0] = (Inr [50, 0, 0, 0], s, w)"
    by (cases "Set 4 ?os ?s0 initial_world [50, 0, 0, 0]") auto
  have wf: "well_formed 4 s w"
    by (rule well_formed_Set[OF well_formed_uninitialized _ eq]) simp_all
  have g: "Get 4 s w False = Inr [50, 0, 0, 0]"
    by (rule Set_then_Get[OF _ eq]) simp
  from Serialize_Deserialize_Get [OF wf g, of "[]"] wf g eq show ?thesis by simp
qed

lemma Deserialize_realMemory:
  "Deserialize n pad s data = (r, s') \<Longrightarrow> realMemory s' = realMemory s"
  by (auto simp: Deserialize_def Let_def split: if_splits sum.splits)

lemma Get_after_Deserialize:
  assumes "well_formed n s w" and "real_content s w = Some mem"
    and "Deserialize n pad s data = (r, s')" and "Get n s' w False = Inr v"
  shows "buffer s' = mem"
proof -
  have wf: "well_formed n s' w" using assms(1,3) by (rule well_formed_Deserialize)
  have rc: "real_content s' w = Some mem"
    using assms(2) Deserialize_realMemory[OF assms(3)] by (simp add: real_content_def)
  show ?thesis
  proof (rule ccontr)
    assume "buffer s' \<noteq> mem"
    then have "mem \<noteq> buffer s'" by simp
    from Get_mismatch[OF wf rc this, of False] assms(4) show False by simp
  qed
qed

lemma InitializeCryptoState_checked_overflow:
  "32 < n \<Longrightarrow> InitializeCryptoState_checked n s = Inl OutOfBounds"
  by (simp add: InitializeCryptoState_checked_def)

lemma InitializeCryptoState_checked_fits:
  "n \<le> 32 \<Longrightarrow> length (key s) = n \<Longrightarrow>
   InitializeCryptoState_checked n s = Inr (InitializeCryptoState n s)"
  by (simp add: InitializeCryptoState_checked_def InitializeCryptoState_eq memcpy_def
      cipher_key_def)

lemma Serialize_checked_short:
  "length (key s) < 32 \<Longrightarrow> Serialize_checked n s = Inl OutOfBounds"
  by (simp add: Serialize_checked_def Encrypt_def Let_def)

lemma Serialize_checked_long:
  assumes "32 \<le> length (key s)"
  shows "Serialize_checked n s = Serialize n pad s"
proof -
  have "initial_state (key s) (nonce s) = initial_state (memory_from_key pad s) (nonce s)"
    by (rule initial_state_key_prefix) (simp add: memory_from_key_long[OF assms])
  then show ?thesis
    using assms
    by (simp add: Serialize_checked_def Serialize_def Encrypt_def length_memory_from_key)
qed

lemma Deserialize_checked_short:
  assumes "n < 32" and "length (key s) = n" and "length data = n + 12 + n"
  shows "fst (Deserialize_checked n s data) = Inl OutOfBounds"
  using assms by (simp add: Deserialize_checked_def Encrypt_def Let_def memcpy_def)

lemma Deserialize_checked_long:
  assumes "32 \<le> n" and "length (key s) = n"
  shows "Deserialize_checked n s data = Deserialize n pad s data"
proof (cases "length data = n + 12 + n")
  case False
  then show ?thesis by (simp add: Deserialize_checked_def Deserialize_def)
next
  case True
  let ?s = "s\<lparr>nonce := memcpy (nonce s) data 12, key := memcpy (key s) (drop 12 data) n\<rparr>"
  have lk: "32 \<le> length (key ?s)" using assms True by (simp add: memcpy_def)
  have "initial_state (key ?s) (nonce ?s) = initial_state (memory_from_key pad ?s) (nonce ?s)"
    by (rule initial_state_key_prefix) (simp add: memory_from_key_long[OF lk])
  then show ?thesis
    using True lk
    by (simp add: Deserialize_checked_def Deserialize_def Encrypt_def Let_def
        length_memory_from_key)
qed

text \<open>
  Claim C9 (key accesses stay in bounds), at \<^verbatim>\<open>SafeVar<int>\<close> constructed with 42 and at a
  type of 33 bytes.  \<^verbatim>\<open>Serialize\<close> and \<^verbatim>\<open>Deserialize\<close> pass the 4-byte \<open>key\<close> array to
  \<^verbatim>\<open>Encrypt\<close>, which reads \<open>key[0..32)\<close>; \<^verbatim>\<open>InitializeCryptoState\<close> copies 33 bytes into
  the 32-element \<open>fullKey\<close>.  Each access leaves its array.  Where no access does, the
  checked routines return what the unchecked ones return (lemmas
  \<open>InitializeCryptoState_checked_fits\<close>, \<open>Serialize_checked_long\<close>,
  \<open>Deserialize_checked_long\<close>).
\<close>

theorem key_accesses_out_of_bounds:
  "Serialize_checked 4
     (fst (snd (Set 4 \<lparr>rand_key = (\<lambda>i. 0xA5), rand_nonce = (\<lambda>i. 7), VirtualAlloc = Some 4096,
                       VirtualFree = True\<rparr>
                  (uninitialized (replicate 4 0) (replicate 4 0) (replicate 12 0))
                  initial_world [42, 0, 0, 0])))
     = Inl OutOfBounds \<and>
   fst (Deserialize_checked 4
     (fst (snd (Set 4 \<lparr>rand_key = (\<lambda>i. 0xA5), rand_nonce = (\<lambda>i. 7), VirtualAlloc = Some 4096,
                       VirtualFree = True\<rparr>
                  (uninitialized (replicate 4 0) (replicate 4 0) (replicate 12 0))
                  initial_world [42, 0, 0, 0])))
     (replicate 20 0))
     = Inl OutOfBounds \<and>
   InitializeCryptoState_checked 33
     (uninitialized (replicate 33 0) (replicate 33 0) (replicate 12 0))
     = Inl OutOfBounds"
proof -
  let ?os = "\<lparr>rand_key = (\<lambda>i. 0xA5), rand_nonce = (\<lambda>i. 7), VirtualAlloc = Some 4096,
                       VirtualFree = True\<rparr>"
  let ?s0 = "uninitialized (replicate 4 0) (replicate 4 0) (replicate 12 0)"
  let ?R = "Set 4 ?os ?s0 initial_world [42, 0, 0, 0]"
  have "fst ?R = Inr [42, 0, 0, 0]"
    by (rule Set_succeeds[where p = 4096]) (simp_all add: Clear_fresh uninitialized_def)
  then have eq: "?R = (Inr [42, 0, 0, 0], fst (snd ?R), snd (snd ?R))"
    by (metis prod.collapse)
  have k: "key (fst (snd ?R)) = GenerateKey 4 ?os"
    using Set_Inr[OF eq] by blast
  have lk: "length (key (fst (snd ?R))) = 4" unfolding k by simp
  have a: "Serialize_checked 4 (fst (snd ?R)) = Inl OutOfBounds"
    by (rule Serialize_checked_short) (simp add: lk)
  have b: "fst (Deserialize_checked 4 (fst (snd ?R)) (replicate 20 0)) = Inl OutOfBounds"
    by (rule Deserialize_checked_short) (simp_all add: lk)
  have c: "InitializeCryptoState_checked 33
             (uninitialized (replicate 33 0) (replicate 33 0) (replicate 12 0))
           = Inl OutOfBounds"
    by (rule InitializeCryptoState_checked_overflow) simp
  from a b c show ?thesis by blast
qed

subsection \<open>Key generation and the cipher key\<close>

lemma GenerateKey_fold_eq:
  "m \<le> n \<Longrightarrow>
   fold (\<lambda>i keyOut. keyOut[i := g i]) [0..<m] (replicate n z)
     = map g [0..<m] @ replicate (n - m) z"
proof (induction m)
  case 0
  then show ?case by simp
next
  case (Suc m)
  then have lt: "m < n" by simp
  then obtain j where j: "n - m = Suc j" by (cases "n - m") auto
  then have j': "n - Suc m = j" by simp
  from Suc lt have "fold (\<lambda>i keyOut. keyOut[i := g i]) [0..<Suc m] (replicate n z)
        = (map g [0..<m] @ replicate (n - m) z)[m := g m]"
    by simp
  also have "\<dots> = map g [0..<m] @ (replicate (n - m) z)[0 := g m]"
    by (simp add: list_update_append)
  also have "\<dots> = map g [0..<Suc m] @ replicate (n - Suc m) z"
    unfolding j j' by simp
  finally show ?case .
qed

lemma GenerateKey_eq:
  "GenerateKey n os = map (rand_key os) [0..<min n 32] @ replicate (n - 32) 0"
proof -
  have "n - min n 32 = n - 32" by simp
  then show ?thesis
    unfolding GenerateKey_def using GenerateKey_fold_eq[of "min n 32" n "rand_key os" 0]
    by simp
qed

lemma GenerateKey_draws:
  assumes "\<And>i. i < min n 32 \<Longrightarrow> rand_key os i = rand_key os' i"
  shows "GenerateKey n os = GenerateKey n os'"
  using assms by (simp add: GenerateKey_eq)

lemma GenerateKey_const:
  "rand_key os = (\<lambda>i. c) \<Longrightarrow> GenerateKey n os = replicate (min n 32) c @ replicate (n - 32) 0"
  by (simp add: GenerateKey_eq map_replicate_const)

lemma GenerateNonce_const:
  "rand_nonce os = (\<lambda>i. c) \<Longrightarrow> GenerateNonce os = replicate 12 (ucast c)"
  by (simp add: GenerateNonce_def map_replicate_const)

lemma Obfuscate_cipher:
  assumes "length (key s) = n" and "length (nonce s) = 12"
  shows "Obfuscate n s v = Encrypt (memcpy (replicate n 0) v n) (cipher_key (key s)) (nonce s)"
  using assms by (simp add: Obfuscate_def InitializeCryptoState_eq)

text \<open>
  Claim C8 (only the first \<open>min n 32\<close> key bytes matter).  \<^verbatim>\<open>GenerateKey\<close> depends on the
  first \<open>min n 32\<close> random draws only.  The ciphertext of \<^verbatim>\<open>Obfuscate\<close> is the cipher under
  the 32-byte cipher key: the key buffer padded with zeros below 32 bytes, its first 32
  bytes above.  Two key buffers that agree on their first 32 bytes give, for the same
  value and nonce, the same ciphertext.
\<close>

theorem key_beyond_32_inert:
  "((\<forall>i < min n 32. rand_key os i = rand_key os' i) \<longrightarrow> GenerateKey n os = GenerateKey n os') \<and>
   (length (key s) = n \<and> length (nonce s) = 12 \<longrightarrow>
      Obfuscate n s v = Encrypt (memcpy (replicate n 0) v n) (cipher_key (key s)) (nonce s) \<and>
      (n < 32 \<longrightarrow> cipher_key (key s) = key s @ replicate (32 - n) 0) \<and>
      (32 < n \<longrightarrow> cipher_key (key s) = take 32 (key s))) \<and>
   (length (key s) = n \<and> length (key s') = n \<and> take 32 (key s) = take 32 (key s') \<and>
    nonce s' = nonce s \<and> length (nonce s) = 12 \<longrightarrow>
      (\<exists>c. Obfuscate n s v = Inr c \<and> Obfuscate n s' v = Inr c))"
proof -
  have a: "(\<forall>i < min n 32. rand_key os i = rand_key os' i) \<longrightarrow> GenerateKey n os = GenerateKey n os'"
    using GenerateKey_draws[of n os os'] by blast
  have b: "length (key s) = n \<and> length (nonce s) = 12 \<longrightarrow>
      Obfuscate n s v = Encrypt (memcpy (replicate n 0) v n) (cipher_key (key s)) (nonce s) \<and>
      (n < 32 \<longrightarrow> cipher_key (key s) = key s @ replicate (32 - n) 0) \<and>
      (32 < n \<longrightarrow> cipher_key (key s) = take 32 (key s))"
    using Obfuscate_cipher[of s n v] cipher_key_short[of "key s"] cipher_key_long[of "key s"]
    by auto
  have c: "length (key s) = n \<and> length (key s') = n \<and> take 32 (key s) = take 32 (key s') \<and>
    nonce s' = nonce s \<and> length (nonce s) = 12 \<longrightarrow>
      (\<exists>c. Obfuscate n s v = Inr c \<and> Obfuscate n s' v = Inr c)"
  proof (intro impI)
    assume h: "length (key s) = n \<and> length (key s') = n \<and> take 32 (key s) = take 32 (key s') \<and>
      nonce s' = nonce s \<and> length (nonce s) = 12"
    then have ck: "cipher_key (key s') = cipher_key (key s)"
      by (intro cipher_key_cong) simp_all
    let ?c = "Encrypt_loop (initial_state (cipher_key (key s)) (nonce s)) 0
                (memcpy (replicate n 0) v n)"
    have "Obfuscate n s v = Inr ?c"
      using h Obfuscate_cipher[of s n v] by (simp add: Encrypt_def)
    moreover have "Obfuscate n s' v = Inr ?c"
      using h ck Obfuscate_cipher[of s' n v] by (simp add: Encrypt_def)
    ultimately show "\<exists>c. Obfuscate n s v = Inr c \<and> Obfuscate n s' v = Inr c"
      by blast
  qed
  from a b c show ?thesis by blast
qed

theorem key_beyond_32_inert_witness:
  "GenerateKey 33 \<lparr>rand_key = (\<lambda>i. 0xA5), rand_nonce = (\<lambda>i. 7), VirtualAlloc = Some 4096,
                   VirtualFree = True\<rparr>
     = GenerateKey 33 \<lparr>rand_key = (\<lambda>i. if i < 32 then 0xA5 else 0x5A), rand_nonce = (\<lambda>i. 7),
                      VirtualAlloc = Some 4096, VirtualFree = True\<rparr> \<and>
   Obfuscate 4 (uninitialized [0, 0, 0, 0] [1, 2, 3, 4] (replicate 12 7)) [42, 0, 0, 0]
     = Encrypt [42, 0, 0, 0] ([1, 2, 3, 4] @ replicate 28 0) (replicate 12 7) \<and>
   take 32 (replicate 32 0xA5 @ [0 :: byte]) = take 32 (replicate 32 0xA5 @ [1]) \<and>
   (\<exists>c. Obfuscate 33 (uninitialized (replicate 33 0) (replicate 32 0xA5 @ [0]) (replicate 12 7))
           (replicate 33 1) = Inr c \<and>
        Obfuscate 33 (uninitialized (replicate 33 0) (replicate 32 0xA5 @ [1]) (replicate 12 7))
           (replicate 33 1) = Inr c)"
proof -
  let ?osA = "\<lparr>rand_key = (\<lambda>i. 0xA5), rand_nonce = (\<lambda>i. 7), VirtualAlloc = Some 4096,
                   VirtualFree = True\<rparr>"
  let ?osB = "\<lparr>rand_key = (\<lambda>i. if i < 32 then 0xA5 else 0x5A), rand_nonce = (\<lambda>i. 7),
                      VirtualAlloc = Some 4096, VirtualFree = True\<rparr>"
  let ?s4 = "uninitialized [0, 0, 0, 0] [1, 2, 3, 4] (replicate 12 7)"
  let ?sA = "uninitialized (replicate 33 0) (replicate 32 0xA5 @ [0]) (replicate 12 7)"
  let ?sB = "uninitialized (replicate 33 0) (replicate 32 0xA5 @ [1]) (replicate 12 7)"
  have h1: "\<forall>i < min 33 32. rand_key ?osA i = rand_key ?osB i" by simp
  have a: "GenerateKey 33 ?osA = GenerateKey 33 ?osB"
    using h1 key_beyond_32_inert [where n = 33 and os = ?osA and os' = ?osB] by blast
  have h2: "length (key ?s4) = 4 \<and> length (nonce ?s4) = 12" by (simp add: uninitialized_def)
  have "Obfuscate 4 ?s4 [42, 0, 0, 0]
          = Encrypt (memcpy (replicate 4 0) [42, 0, 0, 0] 4) (cipher_key (key ?s4)) (nonce ?s4)
        \<and> cipher_key (key ?s4) = key ?s4 @ replicate (32 - 4) 0"
    using h2 key_beyond_32_inert [where n = 4 and s = ?s4 and v = "[42, 0, 0, 0]"] by simp
  then have b: "Obfuscate 4 ?s4 [42, 0, 0, 0]
     = Encrypt [42, 0, 0, 0] ([1, 2, 3, 4] @ replicate 28 0) (replicate 12 7)"
    by (simp add: memcpy_def uninitialized_def)
  have t: "take 32 (replicate 32 0xA5 @ [0 :: byte]) = take 32 (replicate 32 0xA5 @ [1])"
    by simp
  have h3: "length (key ?sA) = 33 \<and> length (key ?sB) = 33 \<and>
            take 32 (key ?sA) = take 32 (key ?sB) \<and> nonce ?sB = nonce ?sA \<and>
            length (nonce ?sA) = 12"
    by (simp add: uninitialized_def)
  have c: "\<exists>c. Obfuscate 33 ?sA (replicate 33 1) = Inr c \<and> Obfuscate 33 ?sB (replicate 33 1) = Inr c"
    using h3 key_beyond_32_inert [where n = 33 and s = ?sA and s' = ?sB and v = "replicate 33 1"]
    by blast
  from a b t c show ?thesis by blast
qed

subsection \<open>The mirror in the real allocation\<close>

text \<open>
  Claim C4 (a valid container's allocation mirrors its ciphertext), at a type of 32
  bytes: construct with the all-zero value, then \<^verbatim>\<open>Deserialize\<close> a buffer with the same
  nonce and key and another payload.  The state is reachable by public operations alone
  and \<open>isValid\<close> holds, but the allocation still has the old ciphertext, and \<^verbatim>\<open>Get\<close>
  reports "Memory validation failed".  \<^verbatim>\<open>Set\<close> does establish the mirror (lemma
  \<open>Set_mirror\<close>).
\<close>

theorem Deserialize_breaks_mirror:
  "case Set 32 \<lparr>rand_key = (\<lambda>i. 0xA5), rand_nonce = (\<lambda>i. 7), VirtualAlloc = Some 4096,
               VirtualFree = True\<rparr>
          (uninitialized (replicate 32 0) (replicate 32 0) (replicate 12 0))
          initial_world (replicate 32 0) of
     (r, s, w) \<Rightarrow>
       (case Deserialize 32 [] s (replicate 12 7 @ replicate 32 0xA5 @ replicate 32 1) of
          (r', s') \<Rightarrow>
            r = Inr (replicate 32 0) \<and> r' = Inr True \<and> reachable 32 (s', w) \<and>
            isValid s' \<and> real_content s' w \<noteq> Some (buffer s') \<and>
            Get 32 s' w False = Inl MemoryValidationFailed)"
proof -
  let ?os = "\<lparr>rand_key = (\<lambda>i. 0xA5), rand_nonce = (\<lambda>i. 7), VirtualAlloc = Some 4096,
               VirtualFree = True\<rparr>"
  let ?s0 = "uninitialized (replicate 32 0) (replicate 32 0) (replicate 12 0)"
  let ?v = "replicate 32 (0 :: byte)"
  let ?payload = "replicate 32 (1 :: byte)"
  let ?k = "replicate 32 (0xA5 :: byte)"
  let ?nc = "replicate 12 (7 :: byte)"
  have ok: "fst (Set 32 ?os ?s0 initial_world ?v) = Inr ?v"
    by (rule Set_succeeds[where p = 4096]) (simp_all add: Clear_fresh uninitialized_def)
  obtain s w where eq: "Set 32 ?os ?s0 initial_world ?v = (Inr ?v, s, w)"
    using ok by (cases "Set 32 ?os ?s0 initial_world ?v") auto
  have re: "reachable 32 (s, w)"
    by (rule reachable.construct[OF _ _ _ _ eq]) simp_all
  have wf: "well_formed 32 s w" using reachable_well_formed[OF re] by simp
  have k: "key s = ?k"
    using Set_Inr[OF eq] GenerateKey_const[of ?os "0xA5" 32] by simp
  have nc: "nonce s = ?nc"
    using Set_Inr[OF eq] GenerateNonce_const[of ?os 7] by simp
  have iv: "isValid s" using Set_Inr[OF eq] by blast
  let ?st = "initial_state ?k ?nc"
  have buf: "buffer s = Encrypt_loop ?st 0 ?v"
    using Set_buffer[OF _ eq] k nc by (simp add: cipher_key_short)
  have mir: "real_content s w = Some (buffer s)"
    by (rule Set_mirror[OF _ eq]) simp
  let ?s' = "s\<lparr>nonce := ?nc, key := ?k, buffer := Encrypt_loop ?st 0 ?payload\<rparr>"
  have "initial_state (memory_from_key [] (s\<lparr>nonce := ?nc, key := ?k\<rparr>)) ?nc = ?st"
    by (rule initial_state_key_prefix) (simp add: memory_from_key_long)
  then have de: "Deserialize 32 [] s (?nc @ ?k @ ?payload) = (Inr True, ?s')"
    using Deserialize_eq[of s 32 ?nc ?k ?payload "[]"] k nc by simp
  have re': "reachable 32 (?s', w)"
    by (rule reachable.after_Deserialize[OF re de])
  have wf': "well_formed 32 ?s' w" using reachable_well_formed[OF re'] by simp
  have rc': "real_content ?s' w = Some (buffer s)"
    using mir by (simp add: real_content_def)
  have ne: "buffer s \<noteq> buffer ?s'"
  proof
    assume "buffer s = buffer ?s'"
    then have "Encrypt_loop ?st 0 ?v = Encrypt_loop ?st 0 ?payload" using buf by simp
    then have "?v = ?payload" by (rule Encrypt_loop_inject[rotated]) simp
    then have "?v ! 0 = ?payload ! 0" by simp
    then show False by simp
  qed
  have g: "Get 32 ?s' w False = Inl MemoryValidationFailed"
    by (rule Get_mismatch[OF wf' rc' ne])
  have "isValid ?s'" using iv by simp
  moreover have "real_content ?s' w \<noteq> Some (buffer ?s')" using rc' ne by simp
  ultimately show ?thesis using eq de re' g by simp
qed

subsection \<open>A denied allocation\<close>

lemma Set_allocation_denied:
  assumes "fst (Clear n os s w) = Inr ()" and "VirtualAlloc os = None"
  shows "fst (Set n os s w v) = Inl MemoryAllocationFailed"
proof -
  obtain s1 w1 where cl: "Clear n os s w = (Inr (), s1, w1)"
    using assms(1) by (cases "Clear n os s w") auto
  let ?s2 = "s1\<lparr>key := GenerateKey n os, nonce := GenerateNonce os\<rparr>"
  have "\<exists>c. Obfuscate n ?s2 v = Inr c"
    using Obfuscate_cipher[of ?s2 n v] by (simp add: Encrypt_def)
  then obtain c where ob: "Obfuscate n ?s2 v = Inr c" ..
  show ?thesis
    using cl ob assms(2) by (simp add: Set_def Let_def AllocateRealMemory_def)
qed

lemma Set_MemoryAllocationFailed:
  assumes "Set n os s w v = (Inl MemoryAllocationFailed, s', w')"
  shows "VirtualAlloc os = None \<and> realMemory s' = None \<and> fakeMemoryAddress s' = 0 \<and>
         key s' = GenerateKey n os \<and> nonce s' = GenerateNonce os \<and>
         Obfuscate n s' v = Inr (buffer s') \<and> isValid s' = isValid s \<and>
         lastChecksum s' = lastChecksum s"
proof -
  obtain rc s1 w1 where cl: "Clear n os s w = (rc, s1, w1)"
    by (cases "Clear n os s w") auto
  have rc: "rc = Inr ()"
  proof (cases rc)
    case (Inl e)
    with assms cl have "e = MemoryAllocationFailed" by (simp add: Set_def)
    with Inl cl show ?thesis
      by (auto simp: Clear_def Let_def FreeRealMemory_def split: option.splits if_splits)
  qed simp
  note c1 = Clear_Inr[OF cl[unfolded rc]]
  let ?s2 = "s1\<lparr>key := GenerateKey n os, nonce := GenerateNonce os\<rparr>"
  obtain c where ob: "Obfuscate n ?s2 v = Inr c"
  proof (cases "Obfuscate n ?s2 v")
    case (Inl e)
    with assms cl rc have "e = MemoryAllocationFailed" by (simp add: Set_def Let_def)
    with Inl Obfuscate_error[of n ?s2 v e] show ?thesis by simp
  qed blast
  have va: "VirtualAlloc os = None"
    using assms cl rc ob
    by (auto simp: Set_def Let_def AllocateRealMemory_def AllocateFakeMemory_def
        split: option.splits)
  have s': "s' = ?s2\<lparr>buffer := c\<rparr>"
    using assms cl rc ob va by (simp add: Set_def Let_def AllocateRealMemory_def)
  have "Obfuscate n s' v = Obfuscate n ?s2 v"
    by (rule Obfuscate_cong) (simp_all add: s')
  with ob c1 va s' show ?thesis by simp
qed

text \<open>
  Claim C5, as amended.  When the allocation fails during \<^verbatim>\<open>Set\<close> (its \<^verbatim>\<open>Clear\<close> has
  returned and \<^verbatim>\<open>VirtualAlloc\<close> returns \<^verbatim>\<open>NULL\<close>), \<^verbatim>\<open>Set\<close> fails with "Memory allocation
  failed" and leaves the container with no real allocation and a zero fake token, but
  not cleared: \<open>key\<close> and \<open>nonce\<close> hold the freshly generated key and nonce, \<open>buffer\<close> holds
  the encryption of the value under them, and \<open>isValid\<close> is what it was before the call.
\<close>

theorem Set_allocation_failure:
  assumes "fst (Clear n os s w) = Inr ()" and "VirtualAlloc os = None"
  shows "case Set n os s w v of
           (r, s', w') \<Rightarrow>
             r = Inl MemoryAllocationFailed \<and> realMemory s' = None \<and>
             fakeMemoryAddress s' = 0 \<and>
             key s' = GenerateKey n os \<and> nonce s' = GenerateNonce os \<and>
             Encrypt (memcpy (replicate n 0) v n) (cipher_key (key s')) (nonce s')
               = Inr (buffer s') \<and>
             isValid s' = isValid s"
proof -
  have "fst (Set n os s w v) = Inl MemoryAllocationFailed"
    using assms by (rule Set_allocation_denied)
  then obtain s' w' where eq: "Set n os s w v = (Inl MemoryAllocationFailed, s', w')"
    by (cases "Set n os s w v") auto
  note f = Set_MemoryAllocationFailed[OF eq]
  have "length (key s') = n" "length (nonce s') = 12" using f by simp_all
  from Obfuscate_cipher[OF this, of v] f eq show ?thesis by simp
qed

theorem Set_allocation_failure_witness:
  "fst (Clear 33 \<lparr>rand_key = (\<lambda>i. 0xA5), rand_nonce = (\<lambda>i. 7), VirtualAlloc = None,
                 VirtualFree = True\<rparr>
          (uninitialized (replicate 33 0) (replicate 33 0) (replicate 12 0)) initial_world)
     = Inr () \<and>
   VirtualAlloc \<lparr>rand_key = (\<lambda>i. 0xA5), rand_nonce = (\<lambda>i. 7), VirtualAlloc = None,
                 VirtualFree = True\<rparr> = None \<and>
   (case Set 33 \<lparr>rand_key = (\<lambda>i. 0xA5), rand_nonce = (\<lambda>i. 7), VirtualAlloc = None,
                VirtualFree = True\<rparr>
          (uninitialized (replicate 33 0) (replicate 33 0) (replicate 12 0))
          initial_world (replicate 33 1) of
      (r, s', w') \<Rightarrow>
        r = Inl MemoryAllocationFailed \<and> realMemory s' = None \<and> fakeMemoryAddress s' = 0 \<and>
        key s' = replicate 32 0xA5 @ [0] \<and> nonce s' = replicate 12 7 \<and>
        Encrypt (replicate 33 1) (replicate 32 0xA5) (replicate 12 7) = Inr (buffer s') \<and>
        \<not> isValid s')"
proof -
  let ?os = "\<lparr>rand_key = (\<lambda>i. 0xA5), rand_nonce = (\<lambda>i. 7), VirtualAlloc = None,
              VirtualFree = True\<rparr>"
  let ?s0 = "uninitialized (replicate 33 0) (replicate 33 0) (replicate 12 0)"
  have cl: "fst (Clear 33 ?os ?s0 initial_world) = Inr ()"
    by (simp add: Clear_fresh uninitialized_def)
  have va: "VirtualAlloc ?os = None" by simp
  have k: "GenerateKey 33 ?os = replicate 32 0xA5 @ [0]"
    using GenerateKey_const[of ?os "0xA5" 33] by simp
  have nc: "GenerateNonce ?os = replicate 12 7"
    using GenerateNonce_const[of ?os 7] by simp
  have ck: "cipher_key (replicate 32 0xA5 @ [0]) = replicate 32 0xA5"
    by (simp add: cipher_key_def)
  have mc: "memcpy (replicate 33 0) (replicate 33 (1 :: byte)) 33 = replicate 33 1"
    by (simp add: memcpy_def)
  have iv: "\<not> isValid ?s0" by (simp add: uninitialized_def)
  from Set_allocation_failure [OF cl va, of "replicate 33 1"] cl va k nc ck mc iv
  show ?thesis by (auto simp: case_prod_beta)
qed

text \<open>
  Claim C5 as stated fails: a valid \<^verbatim>\<open>SafeVar<int>\<close> holding 42 is set to 43 while the
  allocation is denied.  The failure surfaces as "Memory allocation failed", and the
  container is left outside the \<open>Cleared\<close> state: the key and nonce buffers hold the
  newly generated key and nonce, and \<open>isValid\<close> is still true.
\<close>

theorem Set_allocation_failure_not_Cleared:
  "case Set 4 \<lparr>rand_key = (\<lambda>i. 0x11), rand_nonce = (\<lambda>i. 7), VirtualAlloc = Some 4096,
               VirtualFree = True\<rparr>
          (uninitialized (replicate 4 0) (replicate 4 0) (replicate 12 0))
          initial_world [42, 0, 0, 0] of
     (r1, s1, w1) \<Rightarrow>
       (case Set 4 \<lparr>rand_key = (\<lambda>i. 0xA5), rand_nonce = (\<lambda>i. 9), VirtualAlloc = None,
                   VirtualFree = True\<rparr>
              s1 w1 [43, 0, 0, 0] of
          (r2, s2, w2) \<Rightarrow>
            r1 = Inr [42, 0, 0, 0] \<and> r2 = Inl MemoryAllocationFailed \<and>
            key s2 = replicate 4 0xA5 \<and> nonce s2 = replicate 12 9 \<and> isValid s2 \<and>
            \<not> Cleared 4 s2)"
proof -
  let ?os1 = "\<lparr>rand_key = (\<lambda>i. 0x11), rand_nonce = (\<lambda>i. 7), VirtualAlloc = Some 4096,
               VirtualFree = True\<rparr>"
  let ?os2 = "\<lparr>rand_key = (\<lambda>i. 0xA5), rand_nonce = (\<lambda>i. 9), VirtualAlloc = None,
                   VirtualFree = True\<rparr>"
  let ?s0 = "uninitialized (replicate 4 0) (replicate 4 0) (replicate 12 0)"
  have "fst (Set 4 ?os1 ?s0 initial_world [42, 0, 0, 0]) = Inr [42, 0, 0, 0]"
    by (rule Set_succeeds[where p = 4096]) (simp_all add: Clear_fresh uninitialized_def)
  then obtain s1 w1 where eq1: "Set 4 ?os1 ?s0 initial_world [42, 0, 0, 0] = (Inr [42, 0, 0, 0], s1, w1)"
    by (cases "Set 4 ?os1 ?s0 initial_world [42, 0, 0, 0]") auto
  have wf1: "well_formed 4 s1 w1"
    by (rule well_formed_Set[OF well_formed_uninitialized _ eq1]) simp_all
  have iv1: "isValid s1" using Set_Inr[OF eq1] by blast
  have "fst (Set 4 ?os2 s1 w1 [43, 0, 0, 0]) = Inl MemoryAllocationFailed"
    by (rule Set_allocation_denied) (simp_all add: Clear_succeeds[OF wf1])
  then obtain s2 w2 where eq2: "Set 4 ?os2 s1 w1 [43, 0, 0, 0] = (Inl MemoryAllocationFailed, s2, w2)"
    by (cases "Set 4 ?os2 s1 w1 [43, 0, 0, 0]") auto
  note f = Set_MemoryAllocationFailed[OF eq2]
  have k: "key s2 = replicate 4 0xA5"
    using f GenerateKey_const[of ?os2 "0xA5" 4] by simp
  have nc: "nonce s2 = replicate 12 9"
    using f GenerateNonce_const[of ?os2 9] by simp
  have iv2: "isValid s2" using f iv1 by simp
  have "\<not> Cleared 4 s2" using iv2 by (simp add: Cleared_def)
  with eq1 eq2 k nc iv2 show ?thesis by simp
qed

subsection \<open>The checksum\<close>

lemma fnv_loop_foldl:
  "fnv_loop h bs = foldl (\<lambda>hash b. (hash XOR ucast b) * 0x01000193) h bs"
  by (induction bs arbitrary: h) simp_all

lemma ComputeChecksumFNV_fnv1a: "ComputeChecksumFNV bytes = fnv1a bytes"
  by (simp add: ComputeChecksumFNV_def fnv1a_def fnv_loop_foldl)

lemma Get_ignores_lastChecksum:
  "Get n (s\<lparr>lastChecksum := c\<rparr>) w rawMode = Get n s w rawMode"
proof -
  have o: "Obfuscate n (s\<lparr>lastChecksum := c\<rparr>) = Obfuscate n s"
    by (rule ext, rule Obfuscate_cong) simp_all
  have d: "Deobfuscate n (s\<lparr>lastChecksum := c\<rparr>) = Deobfuscate n s"
    by (rule ext, rule Deobfuscate_cong) simp_all
  have v: "ValidateMemory n (s\<lparr>lastChecksum := c\<rparr>) w = ValidateMemory n s w"
    by (simp add: ValidateMemory_def split: option.splits)
  show ?thesis by (simp add: Get_def o d v split: option.splits sum.splits)
qed

lemma Get_MemoryValidationFailed_iff:
  assumes "well_formed n s w"
  shows "Get n s w rawMode = Inl MemoryValidationFailed \<longleftrightarrow>
         (\<exists>mem. real_content s w = Some mem \<and> mem \<noteq> buffer s)"
proof
  assume g: "Get n s w rawMode = Inl MemoryValidationFailed"
  show "\<exists>mem. real_content s w = Some mem \<and> mem \<noteq> buffer s"
  proof (cases "real_content s w")
    case None
    then have "realMemory s = None"
      using assms by (auto simp: real_content_def well_formed_def split: option.splits)
    with g Get_null[of s n w rawMode] show ?thesis by simp
  next
    case (Some mem)
    show ?thesis
    proof (cases "mem = buffer s")
      case True
      with Some have "real_content s w = Some (buffer s)" by simp
      from Get_match_cases[OF assms this, of rawMode] g show ?thesis by simp
    next
      case False
      with Some show ?thesis by blast
    qed
  qed
next
  assume "\<exists>mem. real_content s w = Some mem \<and> mem \<noteq> buffer s"
  then obtain mem where "real_content s w = Some mem" and "mem \<noteq> buffer s" by blast
  then show "Get n s w rawMode = Inl MemoryValidationFailed"
    by (rule Get_mismatch[OF assms])
qed

text \<open>
  Claim C7, as amended.  After every successful \<^verbatim>\<open>Set\<close> the checksum field is the FNV-1a
  digest of the ciphertext buffer.  No access consults it: \<^verbatim>\<open>Get\<close> returns the same for
  any value of the field, and in a well-formed state it reports "Memory validation
  failed" exactly when the bytes of the real allocation differ from the ciphertext.
\<close>

theorem checksum_recomputed_not_consulted:
  "(Set n os s w v = (Inr r, s', w') \<longrightarrow> lastChecksum s' = fnv1a (buffer s')) \<and>
   Get n (s\<lparr>lastChecksum := c\<rparr>) w rawMode = Get n s w rawMode \<and>
   (well_formed n s w \<longrightarrow>
      (Get n s w rawMode = Inl MemoryValidationFailed \<longleftrightarrow>
         (\<exists>mem. real_content s w = Some mem \<and> mem \<noteq> buffer s)))"
proof -
  have a: "Set n os s w v = (Inr r, s', w') \<longrightarrow> lastChecksum s' = fnv1a (buffer s')"
    using Set_Inr[of n os s w v r s' w'] by (simp add: ComputeChecksumFNV_fnv1a)
  show ?thesis
    using a Get_ignores_lastChecksum[where n = n and s = s and c = c and w = w and rawMode = rawMode]
      Get_MemoryValidationFailed_iff[where n = n and s = s and w = w and rawMode = rawMode]
    by blast
qed

theorem checksum_recomputed_not_consulted_witness:
  "fst (Set 4 \<lparr>rand_key = (\<lambda>i. 0xA5), rand_nonce = (\<lambda>i. 7), VirtualAlloc = Some 4096,
              VirtualFree = True\<rparr>
         (uninitialized (replicate 4 0) (replicate 4 0) (replicate 12 0))
         initial_world [42, 0, 0, 0]) = Inr [42, 0, 0, 0] \<and>
   (case Set 4 \<lparr>rand_key = (\<lambda>i. 0xA5), rand_nonce = (\<lambda>i. 7), VirtualAlloc = Some 4096,
               VirtualFree = True\<rparr>
          (uninitialized (replicate 4 0) (replicate 4 0) (replicate 12 0))
          initial_world [42, 0, 0, 0] of
      (r, s', w') \<Rightarrow>
        lastChecksum s' = fnv1a (buffer s') \<and> well_formed 4 s' w' \<and>
        real_content s' w' = Some (buffer s') \<and>
        Get 4 s' w' False \<noteq> Inl MemoryValidationFailed)"
proof -
  let ?os = "\<lparr>rand_key = (\<lambda>i. 0xA5), rand_nonce = (\<lambda>i. 7), VirtualAlloc = Some 4096,
              VirtualFree = True\<rparr>"
  let ?s0 = "uninitialized (replicate 4 0) (replicate 4 0) (replicate 12 0)"
  let ?R = "Set 4 ?os ?s0 initial_world [42, 0, 0, 0]"
  have ok: "fst ?R = Inr [42, 0, 0, 0]"
    by (rule Set_succeeds[where p = 4096]) (simp_all add: Clear_fresh uninitialized_def)
  obtain s' w' where eq: "?R = (Inr [42, 0, 0, 0], s', w')"
    using ok by (cases ?R) auto
  have wf: "well_formed 4 s' w'"
    by (rule well_formed_Set[OF well_formed_uninitialized _ eq]) simp_all
  have rc: "real_content s' w' = Some (buffer s')"
    by (rule Set_mirror[OF _ eq]) simp
  have cs: "lastChecksum s' = fnv1a (buffer s')"
    using eq checksum_recomputed_not_consulted[where n = 4 and os = ?os and s = ?s0
        and w = initial_world and v = "[42, 0, 0, 0]" and r = "[42, 0, 0, 0]"
        and s' = s' and w' = w']
    by blast
  have "Get 4 s' w' False \<noteq> Inl MemoryValidationFailed"
    using wf rc checksum_recomputed_not_consulted[where n = 4 and s = s' and w = w'
        and rawMode = False]
    by auto
  with ok eq wf rc cs show ?thesis by simp
qed

text \<open>
  Claim C7 as stated fails: a 9-byte container whose ciphertext is "declinate" and whose
  checksum field is its digest, after a foreign write of "macallums" (same FNV-1a
  digest) to the real allocation.  \<^verbatim>\<open>Get\<close> detects the divergence, which the checksum
  cannot see.
\<close>

theorem checksum_blind_to_detected_divergence:
  "well_formed 9
     \<lparr>buffer = [100, 101, 99, 108, 105, 110, 97, 116, 101], key = replicate 9 0xA5,
      realMemory = Some 4096, fakeMemoryAddress = 0x10000000, nonce = replicate 12 7,
      lastChecksum = 0xE20E47D2, isValid = True\<rparr>
     \<lparr>heap = (\<lambda>a. None)(4096 \<mapsto> [109, 97, 99, 97, 108, 108, 117, 109, 115]),
      fakeBaseAddress = 0x10000019\<rparr> \<and>
   ComputeChecksumFNV [100, 101, 99, 108, 105, 110, 97, 116, 101] = 0xE20E47D2 \<and>
   Get 9
     \<lparr>buffer = [100, 101, 99, 108, 105, 110, 97, 116, 101], key = replicate 9 0xA5,
      realMemory = Some 4096, fakeMemoryAddress = 0x10000000, nonce = replicate 12 7,
      lastChecksum = 0xE20E47D2, isValid = True\<rparr>
     \<lparr>heap = (\<lambda>a. None)(4096 \<mapsto> [109, 97, 99, 97, 108, 108, 117, 109, 115]),
      fakeBaseAddress = 0x10000019\<rparr>
     False = Inl MemoryValidationFailed \<and>
   \<not> checksum_detects_divergence
     \<lparr>buffer = [100, 101, 99, 108, 105, 110, 97, 116, 101], key = replicate 9 0xA5,
      realMemory = Some 4096, fakeMemoryAddress = 0x10000000, nonce = replicate 12 7,
      lastChecksum = 0xE20E47D2, isValid = True\<rparr>
     \<lparr>heap = (\<lambda>a. None)(4096 \<mapsto> [109, 97, 99, 97, 108, 108, 117, 109, 115]),
      fakeBaseAddress = 0x10000019\<rparr>"
proof -
  let ?s = "\<lparr>buffer = [100, 101, 99, 108, 105, 110, 97, 116, 101], key = replicate 9 0xA5,
      realMemory = Some 4096, fakeMemoryAddress = 0x10000000, nonce = replicate 12 7,
      lastChecksum = 0xE20E47D2, isValid = True\<rparr>"
  let ?w = "\<lparr>heap = (\<lambda>a. None)(4096 \<mapsto> [109, 97, 99, 97, 108, 108, 117, 109, 115]),
      fakeBaseAddress = 0x10000019\<rparr>"
  have wf: "well_formed 9 ?s ?w" by (simp add: well_formed_def)
  have c1: "ComputeChecksumFNV [100, 101, 99, 108, 105, 110, 97, 116, 101] = 0xE20E47D2"
    by (simp add: ComputeChecksumFNV_def)
  have c2: "fnv1a [109, 97, 99, 97, 108, 108, 117, 109, 115] = 0xE20E47D2"
    by (simp add: fnv1a_def)
  have rc: "real_content ?s ?w = Some [109, 97, 99, 97, 108, 108, 117, 109, 115]"
    by (simp add: real_content_def)
  have g: "Get 9 ?s ?w False = Inl MemoryValidationFailed"
    by (rule Get_mismatch[OF wf rc]) simp
  have nd: "\<not> checksum_detects_divergence ?s ?w"
    using rc c2 by (simp add: checksum_detects_divergence_def)
  from wf c1 g nd show ?thesis by blast
qed

end
